theory Spec2Isabelle
  imports Main
begin

section \<open>Values of the configuration document\<close>

text \<open>
  \<^verbatim>\<open>json.load\<close> hands \<^verbatim>\<open>config_editor.py\<close> a tree of Python values: \<^verbatim>\<open>None\<close>,
  booleans, integers, strings, lists and dictionaries with string keys. A dictionary is an
  association list in insertion order, as Python keeps it. Strings are lists of 8-bit
  characters, read as the code points 0..255. Floating-point numbers are left out of the
  value type.
\<close>

datatype json =
    JNull
  | JBool bool
  | JInt int
  | JStr string
  | JList "json list"
  | JObj "(string \<times> json) list"

type_synonym dict = "(string \<times> json) list"

text \<open>The exceptions that the code paths of the editor can raise.\<close>

datatype exn =
    FileNotFoundError
  | JSONDecodeError
  | UnicodeDecodeError
  | PermissionError
  | RecursionError
  | TypeError
  | AttributeError
  | ValueError
  | KeyError

subsection \<open>Dictionary operations\<close>

text \<open>\<^verbatim>\<open>k in d\<close>.\<close>

definition contains :: "string \<Rightarrow> (string \<times> 'v) list \<Rightarrow> bool" where
  "contains k d = (map_of d k \<noteq> None)"

text \<open>\<^verbatim>\<open>d[k] = v\<close>: an existing key keeps its position, a new key goes to the end.\<close>

fun setitem :: "string \<Rightarrow> 'v \<Rightarrow> (string \<times> 'v) list \<Rightarrow> (string \<times> 'v) list" where
  "setitem k v [] = [(k, v)]"
| "setitem k v (p # ps) = (if fst p = k then (k, v) # ps else p # setitem k v ps)"

text \<open>\<^verbatim>\<open>d.setdefault(k, v)\<close>, for its effect on \<^verbatim>\<open>d\<close>.\<close>

definition setdefault :: "string \<Rightarrow> 'v \<Rightarrow> (string \<times> 'v) list \<Rightarrow> (string \<times> 'v) list" where
  "setdefault k v d = (if contains k d then d else d @ [(k, v)])"

text \<open>The value of \<^verbatim>\<open>doc[category][key]\<close> when both subscripts succeed on dictionaries.\<close>

definition field_of :: "dict \<Rightarrow> string \<Rightarrow> string \<Rightarrow> json option" where
  "field_of doc category key =
     (case map_of doc category of
        Some (JObj d) \<Rightarrow> map_of d key
      | _ \<Rightarrow> None)"

subsection \<open>Builtins: \<^verbatim>\<open>str\<close>, \<^verbatim>\<open>bool\<close>, \<^verbatim>\<open>str.strip\<close>, \<^verbatim>\<open>int\<close>\<close>

definition digit_char :: "nat \<Rightarrow> char" where
  "digit_char d = ''0123456789'' ! d"

definition is_digit :: "char \<Rightarrow> bool" where
  "is_digit c = (48 \<le> (of_char c :: nat) \<and> (of_char c :: nat) \<le> 57)"

definition digit_val :: "char \<Rightarrow> nat" where
  "digit_val c = of_char c - 48"

text \<open>Decimal digits of a natural number, most significant first.\<close>

fun dec :: "nat \<Rightarrow> string" where
  "dec n = (if n < 10 then [digit_char n] else dec (n div 10) @ [digit_char (n mod 10)])"

declare dec.simps [simp del]

definition str_int :: "int \<Rightarrow> string" where
  "str_int n = (if n < 0 then CHR ''-'' # dec (nat (- n)) else dec (nat n))"

text \<open>
  \<^verbatim>\<open>repr\<close> of a string: double quotes when the string holds a single quote and no double
  quote, single quotes otherwise; the quote and the backslash are escaped, so are tab,
  newline, carriage return, and every non-printable code point as \<^verbatim>\<open>\xNN\<close>.
\<close>

definition hex_char :: "nat \<Rightarrow> char" where
  "hex_char d = ''0123456789abcdef'' ! d"

definition printable :: "char \<Rightarrow> bool" where
  "printable c = (let n = (of_char c :: nat) in 32 \<le> n \<and> n < 127 \<or> 161 \<le> n \<and> n \<noteq> 173)"

definition repr_char :: "char \<Rightarrow> char \<Rightarrow> string" where
  "repr_char quote c =
     (if c = quote \<or> c = CHR 0x5C then [CHR 0x5C, c]
      else if c = CHR 0x09 then [CHR 0x5C, CHR ''t'']
      else if c = CHR 0x0A then [CHR 0x5C, CHR ''n'']
      else if c = CHR 0x0D then [CHR 0x5C, CHR ''r'']
      else if printable c then [c]
      else [CHR 0x5C, CHR ''x'', hex_char (of_char c div 16), hex_char (of_char c mod 16)])"

definition repr_str :: "string \<Rightarrow> string" where
  "repr_str s =
     (let quote = (if CHR 0x27 \<in> set s \<and> CHR 0x22 \<notin> set s then CHR 0x22 else CHR 0x27)
      in [quote] @ concat (map (repr_char quote) s) @ [quote])"

fun join :: "string \<Rightarrow> string list \<Rightarrow> string" where
  "join sep [] = []"
| "join sep [x] = x"
| "join sep (x # y # ys) = x @ sep @ join sep (y # ys)"

primrec repr :: "json \<Rightarrow> string" where
  "repr JNull = ''None''"
| "repr (JBool b) = (if b then ''True'' else ''False'')"
| "repr (JInt n) = str_int n"
| "repr (JStr s) = repr_str s"
| "repr (JList xs) = ''['' @ join '', '' (map repr xs) @ '']''"
| "repr (JObj d) =
     ''{'' @ join '', '' (map (\<lambda>kv. repr_str (fst kv) @ '': '' @ snd kv) (map (map_prod id repr) d))
       @ ''}''"

text \<open>\<^verbatim>\<open>str(value)\<close>: a string is itself, every other value is its \<^verbatim>\<open>repr\<close>.\<close>

definition py_str :: "json \<Rightarrow> string" where
  "py_str v = (case v of JStr s \<Rightarrow> s | _ \<Rightarrow> repr v)"

text \<open>\<^verbatim>\<open>bool(value)\<close>: truth value testing.\<close>

definition py_bool :: "json \<Rightarrow> bool" where
  "py_bool v =
     (case v of
        JNull \<Rightarrow> False
      | JBool b \<Rightarrow> b
      | JInt n \<Rightarrow> n \<noteq> 0
      | JStr s \<Rightarrow> s \<noteq> []
      | JList xs \<Rightarrow> xs \<noteq> []
      | JObj d \<Rightarrow> d \<noteq> [])"

text \<open>
  \<^verbatim>\<open>str.strip()\<close> removes leading and trailing whitespace; among the code points 0..255
  these are 9..13, 28..32, 133 and 160.
\<close>

definition is_space :: "char \<Rightarrow> bool" where
  "is_space c =
     (let n = (of_char c :: nat)
      in 9 \<le> n \<and> n \<le> 13 \<or> 28 \<le> n \<and> n \<le> 32 \<or> n = 133 \<or> n = 160)"

definition strip :: "string \<Rightarrow> string" where
  "strip s = rev (dropWhile is_space (rev (dropWhile is_space s)))"

text \<open>
  \<^verbatim>\<open>int(s)\<close> on a string, base 10: surrounding whitespace, an optional sign, then digits
  with single underscores allowed between digits. \<open>None\<close> stands for \<^verbatim>\<open>ValueError\<close>,
  which \<^verbatim>\<open>int\<close> also raises on a string of more than 4300 digits, the interpreter's default
  \<^verbatim>\<open>sys.int_info.default_max_str_digits\<close>.
\<close>

definition max_str_digits :: nat where
  "max_str_digits = 4300"

fun parse_digits :: "nat \<Rightarrow> string \<Rightarrow> nat option" where
  "parse_digits acc [] = Some acc"
| "parse_digits acc (c # cs) =
     (if is_digit c then parse_digits (10 * acc + digit_val c) cs
      else if c = CHR ''_'' then
        (case cs of
           [] \<Rightarrow> None
         | d # ds \<Rightarrow> if is_digit d then parse_digits (10 * acc + digit_val d) ds else None)
      else None)"

definition parse_nat :: "string \<Rightarrow> nat option" where
  "parse_nat s =
     (case s of
        [] \<Rightarrow> None
      | c # cs \<Rightarrow> if is_digit c then parse_digits (digit_val c) cs else None)"

definition py_int :: "string \<Rightarrow> int option" where
  "py_int s =
     (if max_str_digits < length (filter is_digit s) then None
      else case strip s of
        [] \<Rightarrow> None
      | c # cs \<Rightarrow>
          if c = CHR ''-'' then map_option (\<lambda>n. - int n) (parse_nat cs)
          else if c = CHR ''+'' then map_option int (parse_nat cs)
          else map_option int (parse_nat (c # cs)))"

subsection \<open>What \<^verbatim>\<open>json.load\<close> and \<^verbatim>\<open>json.dump\<close> refuse\<close>

text \<open>
  Both walk the value in document order. Each nested list or dictionary takes one level of
  the interpreter's recursion, and \<^verbatim>\<open>RecursionError\<close> is raised when no level is left; an
  integer of more than 4300 digits is refused with \<^verbatim>\<open>ValueError\<close>, by \<^verbatim>\<open>int\<close> when
  reading and by \<^verbatim>\<open>str\<close> when writing. \<open>refused v room\<close> is the first exception met in a
  value when \<open>room\<close> levels are left, \<open>None\<close> when there is none.
\<close>

definition int_digits :: "int \<Rightarrow> nat" where
  "int_digits n = length (dec (nat \<bar>n\<bar>))"

fun first_error :: "exn option list \<Rightarrow> exn option" where
  "first_error [] = None"
| "first_error (None # es) = first_error es"
| "first_error (Some e # es) = Some e"

primrec refused :: "json \<Rightarrow> nat \<Rightarrow> exn option" where
  "refused JNull = (\<lambda>room. None)"
| "refused (JBool b) = (\<lambda>room. None)"
| "refused (JInt n) = (\<lambda>room. if max_str_digits < int_digits n then Some ValueError else None)"
| "refused (JStr s) = (\<lambda>room. None)"
| "refused (JList xs) =
     (\<lambda>room. case room of
                0 \<Rightarrow> Some RecursionError
              | Suc r \<Rightarrow> first_error (map (\<lambda>f. f r) (map refused xs)))"
| "refused (JObj d) =
     (\<lambda>room. case room of
                0 \<Rightarrow> Some RecursionError
              | Suc r \<Rightarrow> first_error (map (\<lambda>kf. snd kf r) (map (map_prod id refused) d)))"

section \<open>The window and its widgets\<close>

text \<open>
  Qt widgets are objects with identity: the same check box is stored under its label key
  and inside its category, and again in \<^verbatim>\<open>roleplay_dependent_widgets\<close>. The model keeps the
  objects in a store indexed by object identity and lets the dictionaries hold
  identities. Of a widget only its class and the three attributes that the code reads or
  writes are kept: the text of a line edit, the state of a check box, and the enabled flag.
\<close>

datatype kind = Label | GroupBox | LineEdit | CheckBox

record qwidget =
  wkind :: kind
  wtext :: string
  isChecked :: bool
  isEnabled :: bool

type_synonym wid = nat

text \<open>
  An entry of \<^verbatim>\<open>self.widgets\<close> is a widget (under a \<^verbatim>\<open>label_...\<close> or title key) or, under a
  category name, the dictionary from field names to the controls of that category.
\<close>

datatype wentry = Widget wid | Fields "(string \<times> wid) list"

text \<open>
  The surroundings of the program. The states of \<^verbatim>\<open>config.json\<close>: no such file; a file
  that may not be opened; bytes that are not UTF-8; text that is not JSON (the empty file
  too); JSON text, given by the value it denotes. Then whether the file may be opened for
  writing, and the levels of recursion that the interpreter has left where \<^verbatim>\<open>load_config\<close>
  calls \<^verbatim>\<open>json.load\<close> and where \<^verbatim>\<open>save_config\<close> calls \<^verbatim>\<open>json.dump\<close>.
\<close>

datatype config_file = Missing | Denied | NotUTF8 | Unparsable | Holds json

record disk =
  content :: config_file
  writable :: bool
  load_depth :: nat
  dump_depth :: nat

record window =
  widgets :: "(string \<times> wentry) list"
  roleplay_dependent_widgets :: "wid list"
  stateChanged :: "wid list"
  objs :: "wid \<Rightarrow> qwidget"
  next_obj :: wid
  config_data :: dict

text \<open>
  \<open>stateChanged\<close> lists the check boxes whose \<^verbatim>\<open>stateChanged\<close> signal is connected to
  \<^verbatim>\<open>apply_feature_dependencies\<close>. \<open>config_data\<close> does not exist as an attribute before
  \<^verbatim>\<open>load_config\<close> assigns it, and nothing reads it before; the record holds the empty
  dictionary until then.
\<close>

definition new_widget :: "kind \<Rightarrow> qwidget" where
  "new_widget k = \<lparr>wkind = k, wtext = [], isChecked = False, isEnabled = True\<rparr>"

definition empty_window :: window where
  "empty_window =
     \<lparr>widgets = [], roleplay_dependent_widgets = [], stateChanged = [],
      objs = (\<lambda>_. new_widget Label), next_obj = 0, config_data = []\<rparr>"

text \<open>Calling a widget class: a new object with a fresh identity.\<close>

definition construct :: "kind \<Rightarrow> window \<Rightarrow> wid \<times> window" where
  "construct k w =
     (next_obj w, w\<lparr>objs := (objs w)(next_obj w := new_widget k), next_obj := Suc (next_obj w)\<rparr>)"

definition and_then :: "exn + 'a \<Rightarrow> ('a \<Rightarrow> exn + 'b) \<Rightarrow> exn + 'b" where
  "and_then r f = (case r of Inl e \<Rightarrow> Inl e | Inr x \<Rightarrow> f x)"

fun run_all :: "('s \<Rightarrow> exn + 's) list \<Rightarrow> 's \<Rightarrow> exn + 's" where
  "run_all [] s = Inr s"
| "run_all (f # fs) s = and_then (f s) (run_all fs)"

text \<open>
  The three lines shared by \<^verbatim>\<open>create_labeled_entry\<close> and \<^verbatim>\<open>_add_checkbox_to_grid\<close>:
  \<^verbatim>\<open>if category not in self.widgets: self.widgets[category] = {}\<close> and then
  \<^verbatim>\<open>self.widgets[category][key] = entry\<close>. A widget object does not support item
  assignment.
\<close>

definition store_in_category :: "string \<Rightarrow> string \<Rightarrow> wid \<Rightarrow> window \<Rightarrow> exn + window" where
  "store_in_category category key i w =
     (let ws = (if \<not> contains category (widgets w)
                then setitem category (Fields []) (widgets w) else widgets w)
      in case map_of ws category of
           None \<Rightarrow> Inl KeyError
         | Some (Widget _) \<Rightarrow> Inl TypeError
         | Some (Fields fs) \<Rightarrow>
             Inr (w\<lparr>widgets := setitem category (Fields (setitem key i fs)) ws\<rparr>))"

definition create_labeled_entry :: "string \<Rightarrow> string \<Rightarrow> string \<Rightarrow> window \<Rightarrow> exn + window" where
  "create_labeled_entry category key label_key w =
     (let (label, w1) = construct Label w;
          w2 = w1\<lparr>widgets := setitem (''label_'' @ label_key) (Widget label) (widgets w1)\<rparr>;
          (entry, w3) = construct LineEdit w2
      in store_in_category category key entry w3)"

definition create_group_box :: "string \<Rightarrow> bool \<Rightarrow> window \<Rightarrow> exn + window" where
  "create_group_box title_key dependent w =
     (let (group_box, w1) = construct GroupBox w;
          w2 = w1\<lparr>widgets := setitem title_key (Widget group_box) (widgets w1)\<rparr>
      in Inr (if dependent
              then w2\<lparr>roleplay_dependent_widgets := roleplay_dependent_widgets w2 @ [group_box]\<rparr>
              else w2))"

definition add_checkbox_to_grid :: "string \<Rightarrow> string \<Rightarrow> window \<Rightarrow> exn + wid \<times> window" where
  "add_checkbox_to_grid category key w =
     (let (checkbox, w1) = construct CheckBox w;
          w2 = w1\<lparr>widgets := setitem (''label_'' @ key) (Widget checkbox) (widgets w1)\<rparr>
      in and_then (store_in_category category key checkbox w2) (\<lambda>w3. Inr (checkbox, w3)))"

text \<open>A dependent check box: created, then appended to \<^verbatim>\<open>roleplay_dependent_widgets\<close>.\<close>

definition add_dependent_checkbox :: "string \<Rightarrow> string \<Rightarrow> window \<Rightarrow> exn + window" where
  "add_dependent_checkbox category key w =
     and_then (add_checkbox_to_grid category key w)
       (\<lambda>(checkbox, w1).
          Inr (w1\<lparr>roleplay_dependent_widgets := roleplay_dependent_widgets w1 @ [checkbox]\<rparr>))"

definition create_features_settings :: "window \<Rightarrow> exn + window" where
  "create_features_settings =
     run_all
       [create_group_box ''features_settings_title'' False,
        (\<lambda>w. and_then (add_checkbox_to_grid ''features'' ''roleplay_enabled'' w)
               (\<lambda>(cb_roleplay, w1). Inr (w1\<lparr>stateChanged := stateChanged w1 @ [cb_roleplay]\<rparr>))),
        add_dependent_checkbox ''features'' ''speeding_bonus_enabled'',
        add_dependent_checkbox ''features'' ''zigzag_bonus_enabled'',
        add_dependent_checkbox ''features'' ''police_features_enabled'',
        (\<lambda>w. and_then (add_checkbox_to_grid ''features'' ''money_per_minute_enabled'' w) (\<lambda>r. Inr (snd r))),
        (\<lambda>w. and_then (add_checkbox_to_grid ''features'' ''cool_message_enabled'' w) (\<lambda>r. Inr (snd r)))]"

definition create_general_settings :: "window \<Rightarrow> exn + window" where
  "create_general_settings =
     run_all
       [create_group_box ''general_settings_title'' False,
        create_labeled_entry ''general'' ''autosave_interval_ms'' ''autosave_interval_ms'']"

definition create_money_settings :: "window \<Rightarrow> exn + window" where
  "create_money_settings =
     run_all
       [create_group_box ''money_settings_title'' False,
        create_labeled_entry ''money'' ''starting_money'' ''starting_money'',
        create_labeled_entry ''money'' ''money_per_minute_amount'' ''money_per_minute_amount'',
        create_labeled_entry ''money'' ''money_per_minute_interval_ms'' ''money_per_minute_interval_ms'',
        create_labeled_entry ''money'' ''cool_message_interval_ms'' ''cool_message_interval_ms'']"

definition create_civilian_settings :: "window \<Rightarrow> exn + window" where
  "create_civilian_settings =
     run_all
       [create_group_box ''civilian_settings_title'' True,
        create_labeled_entry ''civilian'' ''speeding_limit_kmh'' ''speeding_limit_kmh'',
        create_labeled_entry ''civilian'' ''speeding_bonus_per_second'' ''speeding_bonus_per_second'',
        create_labeled_entry ''civilian'' ''speeding_bonus_duration_ms'' ''speeding_bonus_duration_ms'',
        create_labeled_entry ''civilian'' ''speeding_cooldown_ms'' ''speeding_cooldown_ms'',
        create_labeled_entry ''civilian'' ''min_speed_kmh_for_zigzag'' ''min_speed_kmh_for_zigzag'',
        create_labeled_entry ''civilian'' ''zigzag_min_turns'' ''zigzag_min_turns'',
        create_labeled_entry ''civilian'' ''zigzag_final_bonus_amount'' ''zigzag_final_bonus_amount'',
        create_labeled_entry ''civilian'' ''zigzag_prorated_bonus'' ''zigzag_prorated_bonus'',
        create_labeled_entry ''civilian'' ''zigzag_bonus_duration_ms'' ''zigzag_bonus_duration_ms'',
        create_labeled_entry ''civilian'' ''zigzag_cooldown_ms'' ''zigzag_cooldown_ms'',
        create_labeled_entry ''civilian'' ''wanted_fail_penalty'' ''wanted_fail_penalty'']"

definition create_police_settings :: "window \<Rightarrow> exn + window" where
  "create_police_settings =
     run_all
       [create_group_box ''police_settings_title'' True,
        create_labeled_entry ''police'' ''police_proximity_range_m'' ''police_proximity_range_m'',
        create_labeled_entry ''police'' ''busted_range_m'' ''busted_range_m'',
        create_labeled_entry ''police'' ''busted_stop_time_ms'' ''busted_stop_time_ms'',
        create_labeled_entry ''police'' ''busted_speed_limit_kmh'' ''busted_speed_limit_kmh'',
        create_labeled_entry ''police'' ''bust_bonus_amount'' ''bust_bonus_amount'',
        create_labeled_entry ''police'' ''police_bonus_per_second'' ''police_bonus_per_second'']"

text \<open>
  \<^verbatim>\<open>init_ui\<close>, for what it stores in \<^verbatim>\<open>self.widgets\<close> and
  \<^verbatim>\<open>self.roleplay_dependent_widgets\<close>: the five settings groups in the order of the calls.
  Header, footer, layouts and style sheet do not reach either.
\<close>

definition init_ui :: "window \<Rightarrow> exn + window" where
  "init_ui =
     run_all
       [create_features_settings,
        create_general_settings,
        create_money_settings,
        create_civilian_settings,
        create_police_settings]"

section \<open>The defaults table\<close>

definition FALLBACK_DEFAULTS :: "(string \<times> (string \<times> json) list) list" where
  "FALLBACK_DEFAULTS =
     [(''features'',
         [(''roleplay_enabled'', JBool True), (''money_per_minute_enabled'', JBool True),
          (''cool_message_enabled'', JBool True), (''speeding_bonus_enabled'', JBool True),
          (''zigzag_bonus_enabled'', JBool True), (''police_features_enabled'', JBool True)]),
      (''general'', [(''autosave_interval_ms'', JInt 120000)]),
      (''money'',
         [(''money_per_minute_interval_ms'', JInt 60000), (''money_per_minute_amount'', JInt 10),
          (''starting_money'', JInt 3333), (''cool_message_interval_ms'', JInt 30000)]),
      (''civilian'',
         [(''speeding_limit_kmh'', JInt 100), (''speeding_bonus_duration_ms'', JInt 60000),
          (''speeding_cooldown_ms'', JInt 200000), (''speeding_bonus_per_second'', JInt 1),
          (''zigzag_bonus_duration_ms'', JInt 120000), (''zigzag_cooldown_ms'', JInt 200000),
          (''zigzag_final_bonus_amount'', JInt 50), (''zigzag_prorated_bonus'', JInt 5),
          (''min_speed_kmh_for_zigzag'', JInt 10), (''zigzag_min_turns'', JInt 5),
          (''wanted_fail_penalty'', JInt 50)]),
      (''police'',
         [(''police_proximity_range_m'', JInt 150), (''busted_range_m'', JInt 20),
          (''busted_stop_time_ms'', JInt 7000), (''busted_speed_limit_kmh'', JInt 5),
          (''police_bonus_per_second'', JInt 2), (''bust_bonus_amount'', JInt 100)])]"

text \<open>\<^verbatim>\<open>{k: v.copy() for k, v in FALLBACK_DEFAULTS.items()}\<close>, as a value.\<close>

definition copy_defaults :: dict where
  "copy_defaults = map (\<lambda>(k, v). (k, JObj v)) FALLBACK_DEFAULTS"

section \<open>The operations of the main window\<close>

subsection \<open>\<^verbatim>\<open>apply_feature_dependencies\<close>\<close>

text \<open>
  The state of the \<^verbatim>\<open>roleplay_enabled\<close> check box is read, then every dependent widget
  gets it as its enabled flag. A missing key is caught (\<^verbatim>\<open>except KeyError: pass\<close>);
  subscripting a widget or asking a widget that is no check box for its state is not.
\<close>

definition setEnabled :: "bool \<Rightarrow> wid \<Rightarrow> (wid \<Rightarrow> qwidget) \<Rightarrow> (wid \<Rightarrow> qwidget)" where
  "setEnabled b i os = os(i := (os i)\<lparr>isEnabled := b\<rparr>)"

definition apply_feature_dependencies :: "window \<Rightarrow> exn + window" where
  "apply_feature_dependencies w =
     (case map_of (widgets w) ''features'' of
        None \<Rightarrow> Inr w
      | Some (Widget _) \<Rightarrow> Inl TypeError
      | Some (Fields fs) \<Rightarrow>
          (case map_of fs ''roleplay_enabled'' of
             None \<Rightarrow> Inr w
           | Some i \<Rightarrow>
               if wkind (objs w i) = CheckBox then
                 (let is_enabled = isChecked (objs w i)
                  in Inr (w\<lparr>objs := fold (setEnabled is_enabled) (roleplay_dependent_widgets w) (objs w)\<rparr>))
               else Inl AttributeError))"

text \<open>
  \<^verbatim>\<open>QCheckBox.setChecked\<close>: when the state changes, \<^verbatim>\<open>stateChanged\<close> is emitted and a
  connected slot runs at once. An exception raised inside a slot is reported and does not
  reach the caller of \<^verbatim>\<open>setChecked\<close>; the slot fails only before its first write.
\<close>

definition setChecked :: "wid \<Rightarrow> bool \<Rightarrow> window \<Rightarrow> window" where
  "setChecked i b w =
     (let w1 = w\<lparr>objs := (objs w)(i := (objs w i)\<lparr>isChecked := b\<rparr>)\<rparr>
      in if isChecked (objs w i) \<noteq> b \<and> i \<in> set (stateChanged w) then
           (case apply_feature_dependencies w1 of Inl e \<Rightarrow> w1 | Inr w2 \<Rightarrow> w2)
         else w1)"

text \<open>
  \<^verbatim>\<open>QLineEdit.setText\<close>: the text is not validated, and it is truncated to the maximum
  length of a line edit, 32767 by default, which the program does not change.
\<close>

definition maxLength :: nat where
  "maxLength = 32767"

definition setText :: "wid \<Rightarrow> string \<Rightarrow> window \<Rightarrow> window" where
  "setText i s w = w\<lparr>objs := (objs w)(i := (objs w i)\<lparr>wtext := take maxLength s\<rparr>)\<rparr>"

subsection \<open>\<^verbatim>\<open>populate_ui\<close>\<close>

text \<open>
  The inner loop \<^verbatim>\<open>for key, widget in fields.items()\<close>. The value of the category is
  asked for \<^verbatim>\<open>.get(key)\<close>, which only a dictionary has. The result pairs the exception, if
  one was raised, with the window as it was at that moment.
\<close>

fun populate_fields :: "string \<Rightarrow> (string \<times> wid) list \<Rightarrow> window \<Rightarrow> exn option \<times> window" where
  "populate_fields category [] w = (None, w)"
| "populate_fields category ((key, widget) # rest) w =
     (case map_of (config_data w) category of
        None \<Rightarrow> (Some KeyError, w)
      | Some (JObj d) \<Rightarrow>
          (case map_of d key of
             None \<Rightarrow> populate_fields category rest w
           | Some v \<Rightarrow>
               if v \<noteq> JNull then
                 (if wkind (objs w widget) = LineEdit then
                    populate_fields category rest (setText widget (py_str v) w)
                  else if wkind (objs w widget) = CheckBox then
                    populate_fields category rest (setChecked widget (py_bool v) w)
                  else populate_fields category rest w)
               else populate_fields category rest w)
      | Some _ \<Rightarrow> (Some AttributeError, w))"

text \<open>
  The outer loop \<^verbatim>\<open>for category, fields in self.widgets.items()\<close> runs over every key of
  \<^verbatim>\<open>self.widgets\<close>, the label and title keys too; for a key that the document has,
  \<^verbatim>\<open>fields.items()\<close> is called, which a widget does not have.
\<close>

fun populate_widgets :: "(string \<times> wentry) list \<Rightarrow> window \<Rightarrow> exn option \<times> window" where
  "populate_widgets [] w = (None, w)"
| "populate_widgets ((category, flds) # rest) w =
     (if contains category (config_data w) then
        (case flds of
           Widget _ \<Rightarrow> (Some AttributeError, w)
         | Fields fs \<Rightarrow>
             (case populate_fields category fs w of
                (Some e, w1) \<Rightarrow> (Some e, w1)
              | (None, w1) \<Rightarrow> populate_widgets rest w1))
      else populate_widgets rest w)"

definition populate_ui :: "window \<Rightarrow> exn option \<times> window" where
  "populate_ui w =
     (case populate_widgets (widgets w) w of
        (Some e, w1) \<Rightarrow> (Some e, w1)
      | (None, w1) \<Rightarrow>
          (case apply_feature_dependencies w1 of
             Inl e \<Rightarrow> (Some e, w1)
           | Inr w2 \<Rightarrow> (None, w2)))"

subsection \<open>\<^verbatim>\<open>load_config\<close>\<close>

text \<open>
  \<^verbatim>\<open>open(CONFIG_FILENAME, 'r', encoding='utf-8')\<close> followed by \<^verbatim>\<open>json.load\<close>: reading
  bytes that are not UTF-8 raises \<^verbatim>\<open>UnicodeDecodeError\<close>, text that is not JSON raises
  \<^verbatim>\<open>JSONDecodeError\<close>, and JSON text is refused where \<open>refused\<close> says so.
\<close>

definition read_json :: "disk \<Rightarrow> exn + json" where
  "read_json dk =
     (case content dk of
        Missing \<Rightarrow> Inl FileNotFoundError
      | Denied \<Rightarrow> Inl PermissionError
      | NotUTF8 \<Rightarrow> Inl UnicodeDecodeError
      | Unparsable \<Rightarrow> Inl JSONDecodeError
      | Holds j \<Rightarrow> (case refused j (load_depth dk) of Some e \<Rightarrow> Inl e | None \<Rightarrow> Inr j))"

text \<open>
  \<^verbatim>\<open>for key, value in fields.items(): self.config_data[category].setdefault(key, value)\<close>,
  on the value stored under the category. Only a dictionary has \<^verbatim>\<open>setdefault\<close>.
\<close>

fun default_fields :: "(string \<times> json) list \<Rightarrow> json \<Rightarrow> exn + json" where
  "default_fields [] v = Inr v"
| "default_fields ((key, value) # flds) v =
     (case v of
        JObj d \<Rightarrow> default_fields flds (JObj (setdefault key value d))
      | _ \<Rightarrow> Inl AttributeError)"

text \<open>The loop \<^verbatim>\<open>for category, fields in FALLBACK_DEFAULTS.items()\<close>.\<close>

fun default_categories :: "(string \<times> (string \<times> json) list) list \<Rightarrow> dict \<Rightarrow> exn + dict" where
  "default_categories [] cfg = Inr cfg"
| "default_categories ((category, flds) # rest) cfg =
     (let cfg1 = (if \<not> contains category cfg then setitem category (JObj []) cfg else cfg)
      in case map_of cfg1 category of
           None \<Rightarrow> Inl KeyError
         | Some v \<Rightarrow>
             (case default_fields flds v of
                Inl e \<Rightarrow> Inl e
              | Inr v1 \<Rightarrow> default_categories rest (setitem category v1 cfg1)))"

text \<open>
  \<^verbatim>\<open>load_config\<close>. Of the exceptions of reading, \<^verbatim>\<open>FileNotFoundError\<close> and
  \<^verbatim>\<open>JSONDecodeError\<close> are caught and replaced by the copy of the defaults; any other
  leaves the function. When the parsed value is not a dictionary, the first round of the
  defaulting loop raises \<^verbatim>\<open>TypeError\<close>: \<^verbatim>\<open>category not in self.config_data\<close> raises it on
  a number, a boolean or \<^verbatim>\<open>None\<close>, and on a list or a string either the assignment
  \<^verbatim>\<open>self.config_data[category] = {}\<close> or the subscript \<^verbatim>\<open>self.config_data[category]\<close> does.
  The function is called from \<^verbatim>\<open>__init__\<close>, so an exception that leaves it ends the program
  and no window remains.
\<close>

definition load_config :: "disk \<Rightarrow> window \<Rightarrow> exn + window" where
  "load_config dk w =
     (case (case read_json dk of
              Inl e \<Rightarrow>
                if e = FileNotFoundError \<or> e = JSONDecodeError then Inr (JObj copy_defaults)
                else Inl e
            | Inr j \<Rightarrow> Inr j) of
        Inl e \<Rightarrow> Inl e
      | Inr (JObj cfg) \<Rightarrow>
          (case default_categories FALLBACK_DEFAULTS cfg of
             Inl e \<Rightarrow> Inl e
           | Inr cfg1 \<Rightarrow>
               (case populate_ui (w\<lparr>config_data := cfg1\<rparr>) of
                  (Some e, _) \<Rightarrow> Inl e
                | (None, w1) \<Rightarrow> Inr w1))
      | Inr _ \<Rightarrow> Inl TypeError)"

text \<open>
  \<^verbatim>\<open>MainWindow.__init__\<close>: the empty attributes, \<^verbatim>\<open>init_ui\<close>, \<^verbatim>\<open>load_config\<close>. Loading the
  language files and choosing the language set captions only.
\<close>

definition MainWindow :: "disk \<Rightarrow> exn + window" where
  "MainWindow dk = and_then (init_ui empty_window) (load_config dk)"

subsection \<open>\<^verbatim>\<open>save_config\<close>\<close>

text \<open>\<^verbatim>\<open>self.config_data[category][key] = v\<close>; only a dictionary takes a string subscript.\<close>

definition assign_field :: "string \<Rightarrow> string \<Rightarrow> json \<Rightarrow> dict \<Rightarrow> exn + dict" where
  "assign_field category key v cfg =
     (case map_of cfg category of
        None \<Rightarrow> Inl KeyError
      | Some (JObj d) \<Rightarrow> Inr (setitem category (JObj (setitem key v d)) cfg)
      | Some _ \<Rightarrow> Inl TypeError)"

text \<open>
  The inner loop of \<^verbatim>\<open>save_config\<close>. The document is assigned in place, field by field, so
  at an exception the window holds the assignments made so far.
\<close>

fun commit_fields :: "string \<Rightarrow> (string \<times> wid) list \<Rightarrow> window \<Rightarrow> exn option \<times> window" where
  "commit_fields category [] w = (None, w)"
| "commit_fields category ((key, widget) # rest) w =
     (if wkind (objs w widget) = LineEdit then
        (let text_value = strip (wtext (objs w widget))
         in case (if text_value \<noteq> [] then py_int text_value else Some 0) of
              None \<Rightarrow> (Some ValueError, w)
            | Some n \<Rightarrow>
                (case assign_field category key (JInt n) (config_data w) of
                   Inl e \<Rightarrow> (Some e, w)
                 | Inr cfg \<Rightarrow> commit_fields category rest (w\<lparr>config_data := cfg\<rparr>)))
      else if wkind (objs w widget) = CheckBox then
        (case assign_field category key (JBool (isChecked (objs w widget))) (config_data w) of
           Inl e \<Rightarrow> (Some e, w)
         | Inr cfg \<Rightarrow> commit_fields category rest (w\<lparr>config_data := cfg\<rparr>))
      else commit_fields category rest w)"

fun commit_widgets :: "(string \<times> wentry) list \<Rightarrow> window \<Rightarrow> exn option \<times> window" where
  "commit_widgets [] w = (None, w)"
| "commit_widgets ((category, flds) # rest) w =
     (if contains category (config_data w) then
        (case flds of
           Widget _ \<Rightarrow> (Some AttributeError, w)
         | Fields fs \<Rightarrow>
             (case commit_fields category fs w of
                (Some e, w1) \<Rightarrow> (Some e, w1)
              | (None, w1) \<Rightarrow> commit_widgets rest w1))
      else commit_widgets rest w)"

text \<open>The commit of the controls into the document: the loops of \<^verbatim>\<open>save_config\<close>.\<close>

definition commit :: "window \<Rightarrow> exn option \<times> window" where
  "commit w = commit_widgets (widgets w) w"

text \<open>The message box that \<^verbatim>\<open>save_config\<close> ends with.\<close>

datatype message = Information | Critical exn

text \<open>
  \<^verbatim>\<open>save_config\<close>: the commit, then \<^verbatim>\<open>open(CONFIG_FILENAME, 'w')\<close> and
  \<^verbatim>\<open>json.dump\<close> of the whole document; \<^verbatim>\<open>except Exception\<close> turns every exception into the
  error box. Opening for writing empties the file and \<^verbatim>\<open>json.dump\<close> writes piece by piece,
  so when it raises, the file is left with text that is not JSON. A file that
  \<^verbatim>\<open>json.dump\<close> has written in full parses back to the value that was written.
\<close>

definition save_config :: "window \<Rightarrow> disk \<Rightarrow> message \<times> window \<times> disk" where
  "save_config w dk =
     (case commit w of
        (Some e, w1) \<Rightarrow> (Critical e, w1, dk)
      | (None, w1) \<Rightarrow>
          if writable dk then
            (case refused (JObj (config_data w1)) (dump_depth dk) of
               Some e \<Rightarrow> (Critical e, w1, dk\<lparr>content := Unparsable\<rparr>)
             | None \<Rightarrow> (Information, w1, dk\<lparr>content := Holds (JObj (config_data w1))\<rparr>))
          else (Critical PermissionError, w1, dk))"

subsection \<open>\<^verbatim>\<open>reset_to_defaults\<close>\<close>

datatype reply = Yes | No

definition reset_to_defaults :: "reply \<Rightarrow> window \<Rightarrow> exn option \<times> window" where
  "reset_to_defaults r w =
     (if r = Yes then populate_ui (w\<lparr>config_data := copy_defaults\<rparr>) else (None, w))"

subsection \<open>What the user does to a control\<close>

text \<open>Typing replaces the text of a line edit; a click toggles a check box.\<close>

definition user_types :: "wid \<Rightarrow> string \<Rightarrow> window \<Rightarrow> window" where
  "user_types i s w = setText i s w"

definition user_clicks :: "wid \<Rightarrow> window \<Rightarrow> window" where
  "user_clicks i w = setChecked i (\<not> isChecked (objs w i)) w"

section \<open>Notions used in the properties\<close>

text \<open>The window that \<^verbatim>\<open>init_ui\<close> builds from the empty attributes of \<^verbatim>\<open>__init__\<close>.\<close>

definition initial_window :: window where
  "initial_window = (case init_ui empty_window of Inr w \<Rightarrow> w | Inl _ \<Rightarrow> empty_window)"

text \<open>
  What \<^verbatim>\<open>init_ui\<close> leaves in \<^verbatim>\<open>self.widgets\<close>, in insertion order, and the classes of the
  objects it created, in the order of their creation.
\<close>

definition ui_widgets :: "(string \<times> wentry) list" where
  "ui_widgets =
     [(''features_settings_title'', Widget 0),
          (''label_roleplay_enabled'', Widget 1),
          (''features'',
           Fields
            [(''roleplay_enabled'', 1), (''speeding_bonus_enabled'', 2),
             (''zigzag_bonus_enabled'', 3), (''police_features_enabled'', 4),
             (''money_per_minute_enabled'', 5), (''cool_message_enabled'', 6)]),
          (''label_speeding_bonus_enabled'', Widget 2),
          (''label_zigzag_bonus_enabled'', Widget 3),
          (''label_police_features_enabled'', Widget 4),
          (''label_money_per_minute_enabled'', Widget 5),
          (''label_cool_message_enabled'', Widget 6),
          (''general_settings_title'', Widget 7),
          (''label_autosave_interval_ms'', Widget 8),
          (''general'', Fields [(''autosave_interval_ms'', 9)]),
          (''money_settings_title'', Widget 10),
          (''label_starting_money'', Widget 11),
          (''money'',
           Fields
            [(''starting_money'', 12), (''money_per_minute_amount'', 14),
             (''money_per_minute_interval_ms'', 16),
             (''cool_message_interval_ms'', 18)]),
          (''label_money_per_minute_amount'', Widget 13),
          (''label_money_per_minute_interval_ms'', Widget 15),
          (''label_cool_message_interval_ms'', Widget 17),
          (''civilian_settings_title'', Widget 19),
          (''label_speeding_limit_kmh'', Widget 20),
          (''civilian'',
           Fields
            [(''speeding_limit_kmh'', 21), (''speeding_bonus_per_second'', 23),
             (''speeding_bonus_duration_ms'', 25), (''speeding_cooldown_ms'', 27),
             (''min_speed_kmh_for_zigzag'', 29), (''zigzag_min_turns'', 31),
             (''zigzag_final_bonus_amount'', 33), (''zigzag_prorated_bonus'', 35),
             (''zigzag_bonus_duration_ms'', 37), (''zigzag_cooldown_ms'', 39),
             (''wanted_fail_penalty'', 41)]),
          (''label_speeding_bonus_per_second'', Widget 22),
          (''label_speeding_bonus_duration_ms'', Widget 24),
          (''label_speeding_cooldown_ms'', Widget 26),
          (''label_min_speed_kmh_for_zigzag'', Widget 28),
          (''label_zigzag_min_turns'', Widget 30),
          (''label_zigzag_final_bonus_amount'', Widget 32),
          (''label_zigzag_prorated_bonus'', Widget 34),
          (''label_zigzag_bonus_duration_ms'', Widget 36),
          (''label_zigzag_cooldown_ms'', Widget 38),
          (''label_wanted_fail_penalty'', Widget 40),
          (''police_settings_title'', Widget 42),
          (''label_police_proximity_range_m'', Widget 43),
          (''police'',
           Fields
            [(''police_proximity_range_m'', 44), (''busted_range_m'', 46),
             (''busted_stop_time_ms'', 48), (''busted_speed_limit_kmh'', 50),
             (''bust_bonus_amount'', 52), (''police_bonus_per_second'', 54)]),
          (''label_busted_range_m'', Widget 45),
          (''label_busted_stop_time_ms'', Widget 47),
          (''label_busted_speed_limit_kmh'', Widget 49),
          (''label_bust_bonus_amount'', Widget 51),
          (''label_police_bonus_per_second'', Widget 53)]"

definition ui_kinds :: "kind list" where
  "ui_kinds =
     [GroupBox, CheckBox, CheckBox, CheckBox, CheckBox, CheckBox, CheckBox,
          GroupBox, Label, LineEdit, GroupBox, Label, LineEdit, Label, LineEdit,
          Label, LineEdit, Label, LineEdit, GroupBox, Label, LineEdit, Label,
          LineEdit, Label, LineEdit, Label, LineEdit, Label, LineEdit, Label,
          LineEdit, Label, LineEdit, Label, LineEdit, Label, LineEdit, Label,
          LineEdit, Label, LineEdit, GroupBox, Label, LineEdit, Label, LineEdit,
          Label, LineEdit, Label, LineEdit, Label, LineEdit, Label, LineEdit]"

text \<open>
  After \<^verbatim>\<open>init_ui\<close> no code assigns \<^verbatim>\<open>self.widgets\<close> or \<^verbatim>\<open>self.roleplay_dependent_widgets\<close>,
  creates a widget or connects a signal, and an object keeps its class. A window of this
  shape differs from the initial one in the attributes of its widgets and in the document
  only.
\<close>

definition ui_shape :: "window \<Rightarrow> bool" where
  "ui_shape w =
     (widgets w = widgets initial_window \<and>
      roleplay_dependent_widgets w = roleplay_dependent_widgets initial_window \<and>
      stateChanged w = stateChanged initial_window \<and>
      next_obj w = next_obj initial_window \<and>
      map (\<lambda>i. wkind (objs w i)) [0..<next_obj initial_window] =
        map (\<lambda>i. wkind (objs initial_window i)) [0..<next_obj initial_window])"

text \<open>The document that the file provides: empty when the file holds no dictionary.\<close>

definition file_doc :: "disk \<Rightarrow> dict" where
  "file_doc dk = (case content dk of Holds (JObj cfg) \<Rightarrow> cfg | _ \<Rightarrow> [])"

text \<open>A field of the defaults table, and its default.\<close>

definition default_of :: "string \<Rightarrow> string \<Rightarrow> json option" where
  "default_of category key = field_of copy_defaults category key"

text \<open>A document is fully populated when it has every category and field of the table.\<close>

definition has_fields :: "(string \<times> json) list \<Rightarrow> json \<Rightarrow> bool" where
  "has_fields flds v = (case v of JObj d \<Rightarrow> list_all (\<lambda>kv. contains (fst kv) d) flds | _ \<Rightarrow> False)"

definition fully_populated :: "dict \<Rightarrow> bool" where
  "fully_populated cfg =
     list_all (\<lambda>cf. case map_of cfg (fst cf) of None \<Rightarrow> False | Some v \<Rightarrow> has_fields (snd cf) v)
       FALLBACK_DEFAULTS"

text \<open>Two windows with the same widget dictionaries, connections and classes of objects.\<close>

definition same_ui :: "window \<Rightarrow> window \<Rightarrow> bool" where
  "same_ui w w' =
     (widgets w' = widgets w \<and>
      roleplay_dependent_widgets w' = roleplay_dependent_widgets w \<and>
      stateChanged w' = stateChanged w \<and>
      next_obj w' = next_obj w \<and>
      (\<forall>i. wkind (objs w' i) = wkind (objs w i)))"

text \<open>
  The value that the commit assigns for a control: the integer read from a line edit
  (\<open>None\<close> when \<^verbatim>\<open>int\<close> raises), the state of a check box.
\<close>

definition is_control :: "qwidget \<Rightarrow> bool" where
  "is_control x = (wkind x = LineEdit \<or> wkind x = CheckBox)"

definition entry_value :: "qwidget \<Rightarrow> json option" where
  "entry_value x =
     (if wkind x = LineEdit then
        (let text_value = strip (wtext x)
         in map_option JInt (if text_value \<noteq> [] then py_int text_value else Some 0))
      else Some (JBool (isChecked x)))"

definition is_obj :: "json \<Rightarrow> bool" where
  "is_obj v = (case v of JObj _ \<Rightarrow> True | _ \<Rightarrow> False)"

text \<open>
  The form fits a document when every key of \<^verbatim>\<open>self.widgets\<close> that the document has is a
  category of the form and names a dictionary in the document.
\<close>

definition fits :: "(string \<times> wentry) list \<Rightarrow> dict \<Rightarrow> bool" where
  "fits ws cfg =
     (\<forall>(c, e) \<in> set ws. contains c cfg \<longrightarrow>
        (\<exists>fs. e = Fields fs) \<and> (\<exists>d. map_of cfg c = Some (JObj d)))"

text \<open>A string of decimal digits.\<close>

definition digit_chars :: "string \<Rightarrow> bool" where
  "digit_chars s = (\<forall>c \<in> set s. \<exists>d < 10. c = digit_char d)"

text \<open>
  A parsed document that \<^verbatim>\<open>load_config\<close> can take: every category of the table that it has
  is a dictionary, and none of its keys is a label or title key of the form.
\<close>

definition loadable :: "dict \<Rightarrow> bool" where
  "loadable cfg =
     (list_all (\<lambda>cf. case map_of cfg (fst cf) of None \<Rightarrow> True | Some v \<Rightarrow> is_obj v)
        FALLBACK_DEFAULTS \<and>
      list_all (\<lambda>ce. case snd ce of Widget _ \<Rightarrow> \<not> contains (fst ce) cfg | Fields _ \<Rightarrow> True)
        ui_widgets)"

text \<open>The example of the specification: a file that sets one field of one category.\<close>

definition dk_example :: disk where
  "dk_example =
     \<lparr>content = Holds (JObj [(''money'', JObj [(''starting_money'', JInt 500)])]),
      writable = True, load_depth = 900, dump_depth = 900\<rparr>"

text \<open>The controls of a form: category, field name and object, in the order of the commit.\<close>

definition controls :: "(string \<times> wentry) list \<Rightarrow> (string \<times> string \<times> wid) list" where
  "controls ws =
     concat (map (\<lambda>ce. case snd ce of
                         Widget _ \<Rightarrow> []
                       | Fields fs \<Rightarrow> map (\<lambda>ki. (fst ce, fst ki, snd ki)) fs) ws)"

text \<open>
  A control agrees with the table when its field is a field of the table and its class is
  the one for the type of the default: a line edit for an integer, a check box for a
  boolean.
\<close>

definition control_agrees :: "string \<times> string \<times> wid \<Rightarrow> bool" where
  "control_agrees cki =
     (case cki of (c, k, i) \<Rightarrow>
        i < 55 \<and>
        (case default_of c k of
           Some (JInt _) \<Rightarrow> ui_kinds ! i = LineEdit
         | Some (JBool _) \<Rightarrow> ui_kinds ! i = CheckBox
         | _ \<Rightarrow> False))"

text \<open>
  A window of the form over the document of defaults in which every line edit shows the
  text \<open>t\<close> and every check box has the state \<open>b\<close>.
\<close>

definition filled_window :: "string \<Rightarrow> bool \<Rightarrow> window" where
  "filled_window t b =
     initial_window\<lparr>objs := (\<lambda>i. (objs initial_window i)\<lparr>wtext := t, isChecked := b\<rparr>),
                    config_data := copy_defaults\<rparr>"

text \<open>
  Surroundings for the examples: a directory that can be written, with no file yet; a
  file with a category and a field that the table does not have; a file with a negative
  amount; a file that switches the roleplay features off.
\<close>

definition dk_missing :: disk where
  "dk_missing = \<lparr>content = Missing, writable = True, load_depth = 900, dump_depth = 400\<rparr>"

definition dk_extra :: disk where
  "dk_extra =
     \<lparr>content = Holds (JObj [(''extra'', JInt 7), (''money'', JObj [(''bonus'', JInt 1)])]),
      writable = True, load_depth = 900, dump_depth = 400\<rparr>"

definition dk_negative :: disk where
  "dk_negative =
     \<lparr>content = Holds (JObj [(''money'', JObj [(''starting_money'', JInt (- 5))])]),
      writable = True, load_depth = 900, dump_depth = 400\<rparr>"

definition dk_gated :: disk where
  "dk_gated =
     \<lparr>content = Holds (JObj [(''features'', JObj [(''roleplay_enabled'', JBool False)]),
                             (''police'', JObj [(''busted_range_m'', JInt 35)])]),
      writable = True, load_depth = 900, dump_depth = 400\<rparr>"

text \<open>
  A value has the type of a default when both are booleans or both are integers; it is in
  range when, if an integer, it lies in 0..999,999,999. An integer that \<^verbatim>\<open>json.load\<close> or
  \<^verbatim>\<open>int\<close> returned has at most 4300 digits.
\<close>

definition typed_like :: "json \<Rightarrow> json \<Rightarrow> bool" where
  "typed_like dflt v =
     (case dflt of
        JBool _ \<Rightarrow> (case v of JBool _ \<Rightarrow> True | _ \<Rightarrow> False)
      | JInt _ \<Rightarrow> (case v of JInt n \<Rightarrow> int_digits n \<le> max_str_digits | _ \<Rightarrow> False)
      | _ \<Rightarrow> False)"

definition value_ok :: "json \<Rightarrow> json \<Rightarrow> bool" where
  "value_ok dflt v =
     (case dflt of
        JBool _ \<Rightarrow> (case v of JBool _ \<Rightarrow> True | _ \<Rightarrow> False)
      | JInt _ \<Rightarrow> (case v of JInt n \<Rightarrow> 0 \<le> n \<and> n \<le> 999999999 | _ \<Rightarrow> False)
      | _ \<Rightarrow> False)"

text \<open>Every field of the table is in the document with a value of its type, in range.\<close>

definition well_typed :: "dict \<Rightarrow> bool" where
  "well_typed cfg =
     list_all (\<lambda>cf. list_all (\<lambda>kv. case field_of cfg (fst cf) (fst kv) of
                                      None \<Rightarrow> False
                                    | Some v \<Rightarrow> value_ok (snd kv) v) (snd cf))
       FALLBACK_DEFAULTS"

text \<open>Every field of the table is in the document with a value of its type.\<close>

definition typed :: "dict \<Rightarrow> bool" where
  "typed cfg =
     list_all (\<lambda>cf. list_all (\<lambda>kv. case field_of cfg (fst cf) (fst kv) of
                                      None \<Rightarrow> False
                                    | Some v \<Rightarrow> typed_like (snd kv) v) (snd cf))
       FALLBACK_DEFAULTS"

text \<open>A text of at most nine decimal digits between whitespace, or of whitespace only.\<close>

definition short_number :: "string \<Rightarrow> bool" where
  "short_number t = (digit_chars (strip t) \<and> length (strip t) \<le> 9)"

text \<open>Every line edit of the form shows such a text.\<close>

definition short_numbers :: "window \<Rightarrow> bool" where
  "short_numbers w =
     list_all (\<lambda>cki. wkind (objs w (snd (snd cki))) = LineEdit \<longrightarrow>
                      short_number (wtext (objs w (snd (snd cki)))))
       (controls ui_widgets)"

section \<open>The window built by \<^verbatim>\<open>init_ui\<close>\<close>

lemmas ui_defs = init_ui_def create_features_settings_def create_general_settings_def
  create_money_settings_def create_civilian_settings_def create_police_settings_def
  create_group_box_def create_labeled_entry_def construct_def store_in_category_def
  and_then_def contains_def new_widget_def empty_window_def add_checkbox_to_grid_def
  add_dependent_checkbox_def

lemma init_ui_eval:
  "case init_ui empty_window of
     Inl _ \<Rightarrow> False
   | Inr w \<Rightarrow>
       widgets w = ui_widgets \<and>
       roleplay_dependent_widgets w = [2, 3, 4, 19, 42] \<and>
       stateChanged w = [1] \<and>
       next_obj w = 55 \<and>
       map (\<lambda>i. wkind (objs w i)) [0..<55] = ui_kinds"
  by (simp add: ui_defs ui_widgets_def ui_kinds_def upt_rec)

lemma init_ui_ok: "init_ui empty_window = Inr initial_window"
  using init_ui_eval unfolding initial_window_def
  by (cases "init_ui empty_window") simp_all

lemma initial_window_facts:
  "widgets initial_window = ui_widgets"
  "roleplay_dependent_widgets initial_window = [2, 3, 4, 19, 42]"
  "stateChanged initial_window = [1]"
  "next_obj initial_window = 55"
  "map (\<lambda>i. wkind (objs initial_window i)) [0..<55] = ui_kinds"
  using init_ui_eval unfolding initial_window_def
  by (cases "init_ui empty_window"; simp)+

section \<open>Dictionaries and the defaulting pass\<close>

lemma map_of_setitem: "map_of (setitem k v d) = (map_of d)(k \<mapsto> v)"
  by (induction d) auto

lemma setitem_same: "map_of d k = Some v \<Longrightarrow> setitem k v d = d"
  by (induction d) (auto split: if_splits)

lemma map_of_setdefault:
  "map_of (setdefault k v d) k' = (if k' = k \<and> map_of d k = None then Some v else map_of d k')"
  by (auto simp: setdefault_def contains_def map_add_def split: option.splits)

lemma setdefault_same: "contains k d \<Longrightarrow> setdefault k v d = d"
  by (simp add: setdefault_def)


lemma default_fields_obj:
  "\<exists>d'. default_fields flds (JObj d) = Inr (JObj d') \<and>
        (\<forall>k. map_of d' k = (case map_of d k of None \<Rightarrow> map_of flds k | Some x \<Rightarrow> Some x))"
proof (induction flds arbitrary: d)
  case Nil
  then show ?case by (auto split: option.splits)
next
  case (Cons p flds)
  obtain key val where p: "p = (key, val)" by (cases p)
  from Cons.IH [of "setdefault key val d"] obtain d' where
    d': "default_fields flds (JObj (setdefault key val d)) = Inr (JObj d')"
    and m: "\<And>k. map_of d' k = (case map_of (setdefault key val d) k of None \<Rightarrow> map_of flds k | Some x \<Rightarrow> Some x)"
    by blast
  show ?case
    using d' by (auto simp: p m map_of_setdefault split: option.splits)
qed

lemma default_fields_not_obj:
  "flds \<noteq> [] \<Longrightarrow> (\<forall>d. v \<noteq> JObj d) \<Longrightarrow> default_fields flds v = Inl AttributeError"
  by (cases flds; cases v) auto

lemma default_fields_Inr:
  assumes "default_fields flds v = Inr v'" "flds \<noteq> []"
  shows "\<exists>d d'. v = JObj d \<and> v' = JObj d' \<and>
           (\<forall>k. map_of d' k = (case map_of d k of None \<Rightarrow> map_of flds k | Some x \<Rightarrow> Some x))"
proof (cases "\<exists>d. v = JObj d")
  case True
  then obtain d where "v = JObj d" by blast
  with default_fields_obj [of flds d] assms show ?thesis by auto
next
  case False
  with default_fields_not_obj [of flds v] assms show ?thesis by auto
qed

lemma default_fields_populated: "has_fields flds v \<Longrightarrow> default_fields flds v = Inr v"
  by (induction flds) (auto simp: has_fields_def setdefault_same split: json.splits)


lemma field_of_setitem_other:
  "c' \<noteq> c \<Longrightarrow> field_of (setitem c v cfg) c' k = field_of cfg c' k"
  by (simp add: field_of_def map_of_setitem)

lemma default_categories_Inr:
  assumes "default_categories cats cfg = Inr cfg'"
    and "distinct (map fst cats)"
    and "\<forall>cf \<in> set cats. snd cf \<noteq> []"
  shows "(\<forall>c. c \<notin> fst ` set cats \<longrightarrow> map_of cfg' c = map_of cfg c) \<and>
         (\<forall>c flds. (c, flds) \<in> set cats \<longrightarrow> (\<exists>d'. map_of cfg' c = Some (JObj d') \<and>
            (\<forall>k. map_of d' k = (case field_of cfg c k of None \<Rightarrow> map_of flds k | Some x \<Rightarrow> Some x))
            \<and> (map_of cfg c = None \<or> (\<exists>d. map_of cfg c = Some (JObj d)))))"
  using assms
proof (induction cats arbitrary: cfg)
  case Nil
  then show ?case by simp
next
  case (Cons p rest)
  obtain c flds where p: "p = (c, flds)" by (cases p)
  define cfg1 where "cfg1 = (if \<not> contains c cfg then setitem c (JObj []) cfg else cfg)"
  have flds: "flds \<noteq> []" using Cons.prems(3) p by auto
  have c1: "map_of cfg1 c = (case map_of cfg c of None \<Rightarrow> Some (JObj []) | Some v \<Rightarrow> Some v)"
    by (auto simp: cfg1_def contains_def map_of_setitem split: option.splits)
  have o1: "\<And>c'. c' \<noteq> c \<Longrightarrow> map_of cfg1 c' = map_of cfg c'"
    by (auto simp: cfg1_def map_of_setitem)
  from c1 obtain v where v: "map_of cfg1 c = Some v" by (auto split: option.splits)
  from Cons.prems(1) obtain v1 where v1: "default_fields flds v = Inr v1"
    and rest: "default_categories rest (setitem c v1 cfg1) = Inr cfg'"
    using v by (auto simp: p cfg1_def Let_def split: sum.splits)
  from default_fields_Inr [OF v1 flds] obtain d d1 where d: "v = JObj d" "v1 = JObj d1"
    and m: "\<And>k. map_of d1 k = (case map_of d k of None \<Rightarrow> map_of flds k | Some x \<Rightarrow> Some x)"
    by blast
  have dist: "distinct (map fst rest)" "c \<notin> fst ` set rest"
    using Cons.prems(2) p by auto
  have ne: "\<forall>cf \<in> set rest. snd cf \<noteq> []" using Cons.prems(3) by auto
  note IH = Cons.IH [OF rest dist(1) ne]
  have IH1: "\<And>c'. c' \<notin> fst ` set rest \<Longrightarrow> map_of cfg' c' = map_of (setitem c v1 cfg1) c'"
    using IH by blast
  have IH2: "\<And>c' flds'. (c', flds') \<in> set rest \<Longrightarrow> \<exists>d'. map_of cfg' c' = Some (JObj d') \<and>
            (\<forall>k. map_of d' k = (case field_of (setitem c v1 cfg1) c' k of None \<Rightarrow> map_of flds' k | Some x \<Rightarrow> Some x))
            \<and> (map_of (setitem c v1 cfg1) c' = None \<or> (\<exists>d. map_of (setitem c v1 cfg1) c' = Some (JObj d)))"
    using IH by blast
  have fo: "\<And>k. field_of cfg c k = map_of d k"
    using c1 v d by (auto simp: field_of_def split: option.splits)
  have cfgc: "map_of cfg c = None \<or> (\<exists>d. map_of cfg c = Some (JObj d))"
    using c1 v d by (auto split: option.splits)
  have A: "map_of cfg' c = Some (JObj d1)"
    using IH1 [OF dist(2)] d by (simp add: map_of_setitem)
  have B: "\<And>c'. c' \<noteq> c \<Longrightarrow> c' \<notin> fst ` set rest \<Longrightarrow> map_of cfg' c' = map_of cfg c'"
    using IH1 o1 by (simp add: map_of_setitem)
  have C: "\<exists>d'. map_of cfg' c' = Some (JObj d') \<and>
            (\<forall>k. map_of d' k = (case field_of cfg c' k of None \<Rightarrow> map_of flds' k | Some x \<Rightarrow> Some x))
            \<and> (map_of cfg c' = None \<or> (\<exists>d. map_of cfg c' = Some (JObj d)))"
    if in_rest: "(c', flds') \<in> set rest" for c' flds'
  proof -
    have neq: "c' \<noteq> c" using dist(2) in_rest by force
    have "field_of (setitem c v1 cfg1) c' = field_of cfg c'"
      using neq o1 by (auto simp: field_of_def map_of_setitem fun_eq_iff)
    moreover have "map_of (setitem c v1 cfg1) c' = map_of cfg c'"
      using neq o1 by (simp add: map_of_setitem)
    ultimately show ?thesis
      using IH2 [OF in_rest] by simp
  qed
  have D: "\<exists>d'. map_of cfg' c = Some (JObj d') \<and>
            (\<forall>k. map_of d' k = (case field_of cfg c k of None \<Rightarrow> map_of flds k | Some x \<Rightarrow> Some x))
            \<and> (map_of cfg c = None \<or> (\<exists>d. map_of cfg c = Some (JObj d)))"
    using A m fo cfgc by simp
  have E: "\<forall>c'. c' \<notin> fst ` set (p # rest) \<longrightarrow> map_of cfg' c' = map_of cfg c'"
    using B by (simp add: p)
  have F: "\<forall>c' flds'. (c', flds') \<in> set (p # rest) \<longrightarrow> (\<exists>d'. map_of cfg' c' = Some (JObj d') \<and>
            (\<forall>k. map_of d' k = (case field_of cfg c' k of None \<Rightarrow> map_of flds' k | Some x \<Rightarrow> Some x))
            \<and> (map_of cfg c' = None \<or> (\<exists>d. map_of cfg c' = Some (JObj d))))"
  proof (intro allI impI)
    fix c' flds' assume "(c', flds') \<in> set (p # rest)"
    then consider "c' = c" "flds' = flds" | "(c', flds') \<in> set rest" by (auto simp: p)
    then show "\<exists>d'. map_of cfg' c' = Some (JObj d') \<and>
            (\<forall>k. map_of d' k = (case field_of cfg c' k of None \<Rightarrow> map_of flds' k | Some x \<Rightarrow> Some x))
            \<and> (map_of cfg c' = None \<or> (\<exists>d. map_of cfg c' = Some (JObj d)))"
    proof cases
      case 1 then show ?thesis using D by (simp cong: option.case_cong)
    next
      case 2 then show ?thesis by (rule C)
    qed
  qed
  show ?case using E F by (rule conjI)
qed

lemma default_categories_populated:
  "list_all (\<lambda>cf. case map_of cfg (fst cf) of None \<Rightarrow> False | Some v \<Rightarrow> has_fields (snd cf) v) cats
   \<Longrightarrow> default_categories cats cfg = Inr cfg"
proof (induction cats)
  case Nil
  then show ?case by simp
next
  case (Cons p cats)
  obtain c flds where p: "p = (c, flds)" by (cases p)
  from Cons.prems obtain v where v: "map_of cfg c = Some v" "has_fields flds v"
    by (auto simp: p split: option.splits)
  have "default_fields flds v = Inr v" using v(2) by (rule default_fields_populated)
  moreover have "setitem c v cfg = cfg" using v(1) by (rule setitem_same)
  moreover have "default_categories cats cfg = Inr cfg" using Cons by simp
  ultimately show ?case using v(1) by (simp add: p contains_def)
qed


section \<open>What \<^verbatim>\<open>populate_ui\<close> leaves alone\<close>

lemma same_ui_refl [simp]: "same_ui w w"
  by (simp add: same_ui_def)

lemma same_ui_trans: "same_ui a b \<Longrightarrow> same_ui b c \<Longrightarrow> same_ui a c"
  by (simp add: same_ui_def)

lemma fold_setEnabled:
  "wkind (fold (setEnabled b) js os i) = wkind (os i)"
  "wtext (fold (setEnabled b) js os i) = wtext (os i)"
  "isChecked (fold (setEnabled b) js os i) = isChecked (os i)"
  by (induction js arbitrary: os; simp add: setEnabled_def)+

lemma fold_setEnabled_flag:
  "isEnabled (fold (setEnabled b) js os i) = (if i \<in> set js then b else isEnabled (os i))"
  by (induction js arbitrary: os) (auto simp: setEnabled_def)

lemma afd_frame:
  assumes "apply_feature_dependencies w = Inr w'"
  shows "config_data w' = config_data w" "same_ui w w'"
    "wtext (objs w' i) = wtext (objs w i)" "isChecked (objs w' i) = isChecked (objs w i)"
  using assms
  by (auto simp: apply_feature_dependencies_def same_ui_def fold_setEnabled
      split: option.splits wentry.splits if_splits)

lemma setChecked_frame:
  "config_data (setChecked i b w) = config_data w"
  "same_ui w (setChecked i b w)"
  "wtext (objs (setChecked i b w) j) = wtext (objs w j)"
  "isChecked (objs (setChecked i b w) j) = (if j = i then b else isChecked (objs w j))"
proof -
  define w1 where "w1 = w\<lparr>objs := (objs w)(i := (objs w i)\<lparr>isChecked := b\<rparr>)\<rparr>"
  have w1: "config_data w1 = config_data w" "same_ui w w1"
    "wtext (objs w1 j) = wtext (objs w j)"
    "isChecked (objs w1 j) = (if j = i then b else isChecked (objs w j))"
    by (auto simp: w1_def same_ui_def)
  have r: "setChecked i b w = w1 \<or> apply_feature_dependencies w1 = Inr (setChecked i b w)"
    by (auto simp: setChecked_def w1_def Let_def split: sum.splits)
  show "config_data (setChecked i b w) = config_data w"
    using r w1 afd_frame(1) by metis
  show "same_ui w (setChecked i b w)"
    using r w1 afd_frame(2) same_ui_trans by metis
  show "wtext (objs (setChecked i b w) j) = wtext (objs w j)"
    using r w1 afd_frame(3) by metis
  show "isChecked (objs (setChecked i b w) j) = (if j = i then b else isChecked (objs w j))"
    using r w1(4) afd_frame(4) by metis
qed

lemma setText_frame:
  "config_data (setText i s w) = config_data w"
  "same_ui w (setText i s w)"
  "wtext (objs (setText i s w) j) = (if j = i then take maxLength s else wtext (objs w j))"
  "isChecked (objs (setText i s w) j) = isChecked (objs w j)"
  by (auto simp: setText_def same_ui_def)

lemma populate_fields_frame:
  "populate_fields c fs w = (eo, w') \<Longrightarrow> config_data w' = config_data w \<and> same_ui w w'"
proof (induction fs arbitrary: w)
  case Nil
  then show ?case by simp
next
  case (Cons p fs)
  obtain key i where p: "p = (key, i)" by (cases p)
  let ?wt = "setText i (py_str (the (field_of (config_data w) c key))) w"
  show ?case
  proof (cases "map_of (config_data w) c")
    case None
    with Cons.prems show ?thesis by (simp add: p)
  next
    case (Some v)
    show ?thesis
    proof (cases v)
      case (JObj d)
      show ?thesis
      proof (cases "map_of d key")
        case None
        with Cons Some JObj show ?thesis by (simp add: p)
      next
        case (Some x)
        note x = this
        consider "populate_fields c fs w = (eo, w')"
          | "populate_fields c fs (setText i (py_str x) w) = (eo, w')"
          | "populate_fields c fs (setChecked i (py_bool x) w) = (eo, w')"
          using Cons.prems \<open>map_of (config_data w) c = Some v\<close> JObj x
          by (auto simp: p split: if_splits)
        then show ?thesis
        proof cases
          case 1 then show ?thesis using Cons.IH by blast
        next
          case 2
          from Cons.IH [OF 2] show ?thesis
            using setText_frame(1,2) same_ui_trans by metis
        next
          case 3
          from Cons.IH [OF 3] show ?thesis
            using setChecked_frame(1,2) same_ui_trans by metis
        qed
      qed
    qed (use Cons.prems Some in \<open>simp_all add: p\<close>)
  qed
qed

lemma populate_widgets_frame:
  "populate_widgets ws w = (eo, w') \<Longrightarrow> config_data w' = config_data w \<and> same_ui w w'"
proof (induction ws arbitrary: w)
  case Nil
  then show ?case by simp
next
  case (Cons p ws)
  obtain c e where p: "p = (c, e)" by (cases p)
  show ?case
  proof (cases "contains c (config_data w)")
    case False
    with Cons show ?thesis by (simp add: p)
  next
    case True
    show ?thesis
    proof (cases e)
      case (Widget j)
      with Cons.prems True show ?thesis by (simp add: p)
    next
      case (Fields fs)
      obtain eo1 w1 where f: "populate_fields c fs w = (eo1, w1)" by (cases "populate_fields c fs w")
      note fr = populate_fields_frame [OF f]
      show ?thesis
      proof (cases eo1)
        case None
        with Cons.prems True Fields f have "populate_widgets ws w1 = (eo, w')" by (simp add: p)
        from Cons.IH [OF this] fr show ?thesis using same_ui_trans by metis
      next
        case (Some x)
        with Cons.prems True Fields f have "w' = w1" by (simp add: p)
        with fr show ?thesis by simp
      qed
    qed
  qed
qed

lemma populate_ui_frame:
  "populate_ui w = (eo, w') \<Longrightarrow> config_data w' = config_data w \<and> same_ui w w'"
proof -
  assume a: "populate_ui w = (eo, w')"
  obtain eo1 w1 where f: "populate_widgets (widgets w) w = (eo1, w1)"
    by (cases "populate_widgets (widgets w) w")
  note fr = populate_widgets_frame [OF f]
  show ?thesis
  proof (cases eo1)
    case (Some x)
    with a f have "w' = w1" by (simp add: populate_ui_def)
    with fr show ?thesis by simp
  next
    case None
    show ?thesis
    proof (cases "apply_feature_dependencies w1")
      case (Inl e)
      with a f None have "w' = w1" by (simp add: populate_ui_def)
      with fr show ?thesis by simp
    next
      case (Inr w2)
      with a f None have "w' = w2" by (simp add: populate_ui_def)
      with fr afd_frame(1,2) [OF Inr] show ?thesis using same_ui_trans by metis
    qed
  qed
qed

section \<open>The commit loops\<close>

lemma assign_field_Inr:
  assumes "assign_field c k v cfg = Inr cfg'"
  shows "\<exists>d. map_of cfg c = Some (JObj d) \<and> cfg' = setitem c (JObj (setitem k v d)) cfg"
  using assms by (auto simp: assign_field_def split: option.splits json.splits)

lemma map_fst_setitem: "map_of d k \<noteq> None \<Longrightarrow> map fst (setitem k v d) = map fst d"
  by (induction d) auto

lemma assign_field_props:
  assumes "assign_field c k v cfg = Inr cfg'"
  shows "map fst cfg' = map fst cfg"
    and "field_of cfg' c' k' = (if c' = c \<and> k' = k then Some v else field_of cfg c' k')"
    and "c' \<noteq> c \<Longrightarrow> map_of cfg' c' = map_of cfg c'"
    and "is_obj (the (map_of cfg' c')) = is_obj (the (map_of cfg c'))"
    and "is_obj (the (map_of cfg c))" and "map_of cfg c \<noteq> None"
proof -
  from assign_field_Inr [OF assms] obtain d where d: "map_of cfg c = Some (JObj d)"
    and c: "cfg' = setitem c (JObj (setitem k v d)) cfg" by blast
  show "map fst cfg' = map fst cfg" using d c by (simp add: map_fst_setitem)
  show "field_of cfg' c' k' = (if c' = c \<and> k' = k then Some v else field_of cfg c' k')"
    using d c by (auto simp: field_of_def map_of_setitem)
  show "c' \<noteq> c \<Longrightarrow> map_of cfg' c' = map_of cfg c'" using c by (simp add: map_of_setitem)
  show "is_obj (the (map_of cfg' c')) = is_obj (the (map_of cfg c'))"
    using d c by (cases "c' = c") (auto simp: map_of_setitem is_obj_def)
  show "is_obj (the (map_of cfg c))" using d by (simp add: is_obj_def)
  show "map_of cfg c \<noteq> None" using d by simp
qed

lemma assign_field_ok:
  "map_of cfg c = Some (JObj d) \<Longrightarrow> \<exists>cfg'. assign_field c k v cfg = Inr cfg'"
  by (simp add: assign_field_def)

lemma assign_field_same:
  "field_of cfg c k = Some v \<Longrightarrow> assign_field c k v cfg = Inr cfg"
  by (auto simp: assign_field_def field_of_def setitem_same split: option.splits json.splits)

text \<open>One round of the inner loop, in terms of \<open>entry_value\<close>.\<close>

lemma commit_fields_Cons:
  "commit_fields c ((k, i) # rest) w =
     (if is_control (objs w i) then
        (case entry_value (objs w i) of
           None \<Rightarrow> (Some ValueError, w)
         | Some v \<Rightarrow>
             (case assign_field c k v (config_data w) of
                Inl e \<Rightarrow> (Some e, w)
              | Inr cfg \<Rightarrow> commit_fields c rest (w\<lparr>config_data := cfg\<rparr>)))
      else commit_fields c rest w)"
  by (simp add: is_control_def entry_value_def Let_def split: option.splits)

lemma commit_fields_frame:
  "commit_fields c fs w = (eo, w') \<Longrightarrow> w' = w\<lparr>config_data := config_data w'\<rparr>"
proof (induction fs arbitrary: w)
  case Nil
  then show ?case by simp
next
  case (Cons p fs)
  obtain k i where p: "p = (k, i)" by (cases p)
  from Cons.prems consider "w' = w" | "commit_fields c fs w = (eo, w')"
    | cfg where "commit_fields c fs (w\<lparr>config_data := cfg\<rparr>) = (eo, w')"
    unfolding p commit_fields_Cons by (auto split: if_splits option.splits sum.splits)
  then show ?case
  proof cases
    case 1 then show ?thesis by simp
  next
    case 2 then show ?thesis by (rule Cons.IH)
  next
    case 3
    from Cons.IH [OF 3] have "w' = w\<lparr>config_data := cfg\<rparr>\<lparr>config_data := config_data w'\<rparr>" .
    then show ?thesis by simp
  qed
qed


lemma commit_fields_Cons_cases:
  assumes "commit_fields c ((k, i) # rest) w = (eo, w')"
  obtains (skip) "\<not> is_control (objs w i)" "commit_fields c rest w = (eo, w')"
  | (value_error) "is_control (objs w i)" "entry_value (objs w i) = None"
      "eo = Some ValueError" "w' = w"
  | (assign_error) v e where "is_control (objs w i)" "entry_value (objs w i) = Some v"
      "assign_field c k v (config_data w) = Inl e" "eo = Some e" "w' = w"
  | (assigned) v cfg where "is_control (objs w i)" "entry_value (objs w i) = Some v"
      "assign_field c k v (config_data w) = Inr cfg"
      "commit_fields c rest (w\<lparr>config_data := cfg\<rparr>) = (eo, w')"
proof (cases "is_control (objs w i)")
  case False
  have "commit_fields c rest w = (eo, w')"
    using assms False unfolding commit_fields_Cons by simp
  with False show ?thesis by (rule skip)
next
  case True
  note ctl = this
  show ?thesis
  proof (cases "entry_value (objs w i)")
    case None
    have "eo = Some ValueError" "w' = w"
      using assms ctl None unfolding commit_fields_Cons by simp_all
    with ctl None show ?thesis by (rule value_error)
  next
    case (Some v)
    note v = this
    show ?thesis
    proof (cases "assign_field c k v (config_data w)")
      case (Inl e)
      have "eo = Some e" "w' = w"
        using assms ctl v Inl unfolding commit_fields_Cons by simp_all
      with ctl v Inl show ?thesis by (rule assign_error)
    next
      case (Inr cfg)
      have "commit_fields c rest (w\<lparr>config_data := cfg\<rparr>) = (eo, w')"
        using assms ctl v Inr unfolding commit_fields_Cons by simp
      with ctl v Inr show ?thesis by (rule assigned)
    qed
  qed
qed

lemma commit_fields_keys:
  "commit_fields c fs w = (eo, w') \<Longrightarrow>
     map fst (config_data w') = map fst (config_data w) \<and>
     (\<forall>c'. c' \<noteq> c \<longrightarrow> map_of (config_data w') c' = map_of (config_data w) c') \<and>
     (\<forall>c'. is_obj (the (map_of (config_data w') c')) = is_obj (the (map_of (config_data w) c')))"
proof (induction fs arbitrary: w)
  case Nil
  then show ?case by simp
next
  case (Cons p fs)
  obtain k i where p: "p = (k, i)" by (cases p)
  from Cons.prems have "commit_fields c ((k, i) # fs) w = (eo, w')" by (simp add: p)
  then show ?case
  proof (cases rule: commit_fields_Cons_cases)
    case skip
    then show ?thesis using Cons.IH by blast
  next
    case value_error
    then show ?thesis by simp
  next
    case (assign_error v e)
    then show ?thesis by simp
  next
    case (assigned v cfg)
    from Cons.IH [OF assigned(4)] assign_field_props(1,3,4) [OF assigned(3)]
    show ?thesis by simp
  qed
qed

lemma commit_fields_either:
  "commit_fields c fs w = (eo, w') \<Longrightarrow>
     field_of (config_data w') c k = field_of (config_data w) c k \<or>
     (\<exists>i. (k, i) \<in> set fs \<and> is_control (objs w i) \<and> entry_value (objs w i) \<noteq> None \<and>
          field_of (config_data w') c k = entry_value (objs w i))"
proof (induction fs arbitrary: w)
  case Nil
  then show ?case by simp
next
  case (Cons p fs)
  obtain k0 i0 where p: "p = (k0, i0)" by (cases p)
  from Cons.prems have "commit_fields c ((k0, i0) # fs) w = (eo, w')" by (simp add: p)
  then show ?case
  proof (cases rule: commit_fields_Cons_cases)
    case skip
    from Cons.IH [OF skip(2)] show ?thesis by auto
  next
    case value_error
    then show ?thesis by simp
  next
    case (assign_error v e)
    then show ?thesis by simp
  next
    case (assigned v cfg)
    have f: "field_of cfg c k = (if k = k0 then Some v else field_of (config_data w) c k)"
      using assign_field_props(2) [OF assigned(3), of c k] by simp
    from Cons.IH [OF assigned(4)]
    consider "field_of (config_data w') c k = field_of cfg c k"
      | i where "(k, i) \<in> set fs" "is_control (objs w i)" "entry_value (objs w i) \<noteq> None"
          "field_of (config_data w') c k = entry_value (objs w i)"
      by auto
    then show ?thesis
    proof cases
      case 1
      show ?thesis
      proof (cases "k = k0")
        case True
        with 1 f assigned(1,2) have "(k, i0) \<in> set (p # fs) \<and> is_control (objs w i0) \<and>
          entry_value (objs w i0) \<noteq> None \<and> field_of (config_data w') c k = entry_value (objs w i0)"
          by (simp add: p)
        then show ?thesis by blast
      next
        case False
        with 1 f show ?thesis by simp
      qed
    next
      case 2
      then have "(k, i) \<in> set (p # fs) \<and> is_control (objs w i) \<and>
          entry_value (objs w i) \<noteq> None \<and> field_of (config_data w') c k = entry_value (objs w i)"
        by simp
      then show ?thesis by blast
    qed
  qed
qed

lemma commit_fields_done:
  "commit_fields c fs w = (None, w') \<Longrightarrow> distinct (map fst fs) \<Longrightarrow> (k, i) \<in> set fs \<Longrightarrow>
     is_control (objs w i) \<Longrightarrow>
     entry_value (objs w i) \<noteq> None \<and> field_of (config_data w') c k = entry_value (objs w i)"
proof (induction fs arbitrary: w)
  case Nil
  then show ?case by simp
next
  case (Cons p fs)
  obtain k0 i0 where p: "p = (k0, i0)" by (cases p)
  have dist: "distinct (map fst fs)" "k0 \<notin> fst ` set fs" using Cons.prems(2) by (auto simp: p)
  from Cons.prems(1) have "commit_fields c ((k0, i0) # fs) w = (None, w')" by (simp add: p)
  then show ?case
  proof (cases rule: commit_fields_Cons_cases)
    case skip
    with Cons.prems(3,4) have "(k, i) \<in> set fs" by (auto simp: p)
    from Cons.IH [OF skip(2) dist(1) this Cons.prems(4)] show ?thesis .
  next
    case value_error
    then show ?thesis by simp
  next
    case (assign_error v e)
    then show ?thesis by simp
  next
    case (assigned v cfg)
    show ?thesis
    proof (cases "(k, i) \<in> set fs")
      case True
      from Cons.IH [OF assigned(4) dist(1) True] Cons.prems(4) show ?thesis by simp
    next
      case False
      with Cons.prems(3) have ki: "k = k0" "i = i0" by (auto simp: p)
      have f: "field_of cfg c k0 = Some v"
        using assign_field_props(2) [OF assigned(3), of c k0] by simp
      from commit_fields_either [OF assigned(4), of k0] dist(2)
      have "field_of (config_data w') c k0 = field_of cfg c k0" by force
      with f assigned(2) ki show ?thesis by simp
    qed
  qed
qed

lemma contains_iff: "contains k d = (k \<in> set (map fst d))"
  by (simp add: contains_def map_of_eq_None_iff)

lemma commit_widgets_Cons_cases:
  assumes "commit_widgets ((c, e) # rest) w = (eo, w')"
  obtains (absent) "\<not> contains c (config_data w)" "commit_widgets rest w = (eo, w')"
  | (widget) j where "contains c (config_data w)" "e = Widget j" "eo = Some AttributeError" "w' = w"
  | (failed) fs x where "contains c (config_data w)" "e = Fields fs"
      "commit_fields c fs w = (Some x, w')" "eo = Some x"
  | (passed) fs w1 where "contains c (config_data w)" "e = Fields fs"
      "commit_fields c fs w = (None, w1)" "commit_widgets rest w1 = (eo, w')"
proof (cases "contains c (config_data w)")
  case False
  have "commit_widgets rest w = (eo, w')" using assms False by simp
  with False show ?thesis by (rule absent)
next
  case True
  note inn = this
  show ?thesis
  proof (cases e)
    case (Widget j)
    have "eo = Some AttributeError" "w' = w" using assms inn Widget by simp_all
    with inn Widget show ?thesis by (rule widget)
  next
    case (Fields fs)
    obtain eo1 w1 where f: "commit_fields c fs w = (eo1, w1)" by (cases "commit_fields c fs w")
    show ?thesis
    proof (cases eo1)
      case None
      have "commit_widgets rest w1 = (eo, w')" using assms inn Fields f None by simp
      with inn Fields f None show ?thesis using passed by blast
    next
      case (Some x)
      have "eo = Some x" "w' = w1" using assms inn Fields f Some by simp_all
      with inn Fields f Some show ?thesis using failed by blast
    qed
  qed
qed


lemma commit_widgets_keys:
  "commit_widgets ws w = (eo, w') \<Longrightarrow>
     map fst (config_data w') = map fst (config_data w) \<and>
     (\<forall>c'. c' \<notin> fst ` set ws \<longrightarrow> map_of (config_data w') c' = map_of (config_data w) c') \<and>
     (\<forall>c'. is_obj (the (map_of (config_data w') c')) = is_obj (the (map_of (config_data w) c')))"
proof (induction ws arbitrary: w)
  case Nil
  then show ?case by simp
next
  case (Cons p ws)
  obtain c e where p: "p = (c, e)" by (cases p)
  from Cons.prems have "commit_widgets ((c, e) # ws) w = (eo, w')" by (simp add: p)
  then show ?case
  proof (cases rule: commit_widgets_Cons_cases)
    case absent
    from Cons.IH [OF absent(2)] show ?thesis by (simp add: p)
  next
    case (widget j)
    then show ?thesis by simp
  next
    case (failed fs x)
    from commit_fields_keys [OF failed(3)] show ?thesis by (simp add: p)
  next
    case (passed fs w1)
    from commit_fields_keys [OF passed(3)] Cons.IH [OF passed(4)]
    show ?thesis by (simp add: p)
  qed
qed

lemma commit_widgets_contains:
  "commit_widgets ws w = (eo, w') \<Longrightarrow> contains c (config_data w') = contains c (config_data w)"
  using commit_widgets_keys [of ws w eo w'] by (simp add: contains_iff)

lemma commit_fields_contains:
  "commit_fields c0 fs w = (eo, w') \<Longrightarrow> contains c (config_data w') = contains c (config_data w)"
  using commit_fields_keys [of c0 fs w eo w'] by (simp add: contains_iff)

lemma commit_fields_objs: "commit_fields c fs w = (eo, w') \<Longrightarrow> objs w' = objs w"
  using commit_fields_frame [of c fs w eo w'] by (metis window.select_convs(4) window.surjective window.update_convs(6))


lemma field_of_cong: "map_of cfg' c = map_of cfg c \<Longrightarrow> field_of cfg' c k = field_of cfg c k"
  by (simp add: field_of_def)

lemma commit_widgets_either:
  "commit_widgets ws w = (eo, w') \<Longrightarrow>
     field_of (config_data w') c k = field_of (config_data w) c k \<or>
     (\<exists>fs i. (c, Fields fs) \<in> set ws \<and> (k, i) \<in> set fs \<and> is_control (objs w i) \<and>
          entry_value (objs w i) \<noteq> None \<and>
          field_of (config_data w') c k = entry_value (objs w i))"
proof (induction ws arbitrary: w)
  case Nil
  then show ?case by simp
next
  case (Cons p ws)
  obtain c0 e where p: "p = (c0, e)" by (cases p)
  from Cons.prems have "commit_widgets ((c0, e) # ws) w = (eo, w')" by (simp add: p)
  then show ?case
  proof (cases rule: commit_widgets_Cons_cases)
    case absent
    from Cons.IH [OF absent(2)] show ?thesis by auto
  next
    case (widget j)
    then show ?thesis by simp
  next
    case (failed fs x)
    show ?thesis
    proof (cases "c = c0")
      case True
      from commit_fields_either [OF failed(3), of k] True failed(2)
      show ?thesis by (auto simp: p)
    next
      case False
      with commit_fields_keys [OF failed(3)] show ?thesis by (simp add: field_of_def)
    qed
  next
    case (passed fs w1)
    have o: "objs w1 = objs w" using passed(3) by (rule commit_fields_objs)
    from Cons.IH [OF passed(4)]
    consider (same) "field_of (config_data w') c k = field_of (config_data w1) c k"
      | (later) fs' i where "(c, Fields fs') \<in> set ws" "(k, i) \<in> set fs'" "is_control (objs w1 i)"
          "entry_value (objs w1 i) \<noteq> None" "field_of (config_data w') c k = entry_value (objs w1 i)"
      by blast
    then show ?thesis
    proof cases
      case later
      then have "(c, Fields fs') \<in> set (p # ws) \<and> (k, i) \<in> set fs' \<and> is_control (objs w i) \<and>
          entry_value (objs w i) \<noteq> None \<and> field_of (config_data w') c k = entry_value (objs w i)"
        using o by simp
      then show ?thesis by blast
    next
      case same
      show ?thesis
      proof (cases "c = c0")
        case False
        with commit_fields_keys [OF passed(3)]
        have "field_of (config_data w1) c k = field_of (config_data w) c k"
          by (simp add: field_of_def)
        with same show ?thesis by simp
      next
        case True
        from commit_fields_either [OF passed(3), of k]
        consider "field_of (config_data w1) c0 k = field_of (config_data w) c0 k"
          | i where "(k, i) \<in> set fs" "is_control (objs w i)" "entry_value (objs w i) \<noteq> None"
              "field_of (config_data w1) c0 k = entry_value (objs w i)"
          by blast
        then show ?thesis
        proof cases
          case 1
          with same True show ?thesis by simp
        next
          case 2
          with same True passed(2)
          have "(c, Fields fs) \<in> set (p # ws) \<and> (k, i) \<in> set fs \<and> is_control (objs w i) \<and>
            entry_value (objs w i) \<noteq> None \<and> field_of (config_data w') c k = entry_value (objs w i)"
            by (simp add: p)
          then show ?thesis by blast
        qed
      qed
    qed
  qed
qed

text \<open>A completed commit has assigned every control of every category that the document has.\<close>

lemma commit_widgets_done:
  assumes "commit_widgets ws w = (None, w')"
    and "distinct (map fst ws)"
    and "(c, Fields fs) \<in> set ws" and "distinct (map fst fs)"
    and "contains c (config_data w)"
    and "(k, i) \<in> set fs" and "is_control (objs w i)"
  shows "entry_value (objs w i) \<noteq> None \<and> field_of (config_data w') c k = entry_value (objs w i)"
  using assms(1,2,3,5,7)
proof (induction ws arbitrary: w)
  case Nil
  then show ?case by simp
next
  case (Cons p ws)
  obtain c0 e where p: "p = (c0, e)" by (cases p)
  have dist: "distinct (map fst ws)" "c0 \<notin> fst ` set ws" using Cons.prems(2) by (auto simp: p)
  from Cons.prems(1) have "commit_widgets ((c0, e) # ws) w = (None, w')" by (simp add: p)
  then show ?case
  proof (cases rule: commit_widgets_Cons_cases)
    case absent
    with Cons.prems(3,4) have "(c, Fields fs) \<in> set ws" by (auto simp: p)
    from Cons.IH [OF absent(2) dist(1) this Cons.prems(4,5)] show ?thesis .
  next
    case (widget j)
    then show ?thesis by simp
  next
    case (failed fs x)
    then show ?thesis by simp
  next
    case (passed fs0 w1)
    have o: "objs w1 = objs w" using passed(3) by (rule commit_fields_objs)
    show ?thesis
    proof (cases "(c, Fields fs) \<in> set ws")
      case True
      have "contains c (config_data w1)"
        using commit_fields_contains [OF passed(3)] Cons.prems(4) by simp
      from Cons.IH [OF passed(4) dist(1) True this] Cons.prems(5) o show ?thesis by simp
    next
      case False
      with Cons.prems(3) passed(2) have eq: "c = c0" "fs0 = fs" by (auto simp: p)
      from commit_fields_done [OF passed(3) [unfolded eq(2)] assms(4,6) Cons.prems(5)]
      have v: "entry_value (objs w i) \<noteq> None"
        "field_of (config_data w1) c0 k = entry_value (objs w i)" by simp_all
      from commit_widgets_either [OF passed(4), of c0 k] dist(2)
      have "field_of (config_data w') c0 k = field_of (config_data w1) c0 k" by force
      with v eq show ?thesis by simp
    qed
  qed
qed

text \<open>A completed commit met no label or title key in the document.\<close>

lemma commit_widgets_no_widget_key:
  "commit_widgets ws w = (None, w') \<Longrightarrow> (c, Widget j) \<in> set ws \<Longrightarrow>
     \<not> contains c (config_data w)"
proof (induction ws arbitrary: w)
  case Nil
  then show ?case by simp
next
  case (Cons p ws)
  obtain c0 e where p: "p = (c0, e)" by (cases p)
  from Cons.prems(1) have "commit_widgets ((c0, e) # ws) w = (None, w')" by (simp add: p)
  then show ?case
  proof (cases rule: commit_widgets_Cons_cases)
    case absent
    show ?thesis
    proof (cases "(c, Widget j) \<in> set ws")
      case True
      from Cons.IH [OF absent(2) True] show ?thesis .
    next
      case False
      with Cons.prems(2) have "c = c0" by (auto simp: p)
      with absent(1) show ?thesis by simp
    qed
  next
    case (widget j)
    then show ?thesis by simp
  next
    case (failed fs x)
    then show ?thesis by simp
  next
    case (passed fs0 w1)
    from Cons.prems(2) passed(2) have "(c, Widget j) \<in> set ws" by (auto simp: p)
    from Cons.IH [OF passed(4) this] commit_fields_contains [OF passed(3)]
    show ?thesis by simp
  qed
qed

lemma commit_fields_outcome:
  assumes "\<exists>d. map_of (config_data w) c = Some (JObj d)"
  shows "(\<exists>w'. commit_fields c fs w = (None, w') \<and>
            (\<forall>(k, i) \<in> set fs. is_control (objs w i) \<longrightarrow> entry_value (objs w i) \<noteq> None)) \<or>
         (\<exists>w'. commit_fields c fs w = (Some ValueError, w') \<and>
            (\<exists>(k, i) \<in> set fs. is_control (objs w i) \<and> entry_value (objs w i) = None))"
  using assms
proof (induction fs arbitrary: w)
  case Nil
  then show ?case by simp
next
  case (Cons p fs)
  obtain k i where p: "p = (k, i)" by (cases p)
  from Cons.prems obtain d where d: "map_of (config_data w) c = Some (JObj d)" by blast
  show ?case
  proof (cases "is_control (objs w i)")
    case False
    then have "commit_fields c (p # fs) w = commit_fields c fs w"
      unfolding p commit_fields_Cons by simp
    with Cons.IH [OF Cons.prems] False show ?thesis by (auto simp: p)
  next
    case True
    show ?thesis
    proof (cases "entry_value (objs w i)")
      case None
      with True have "commit_fields c (p # fs) w = (Some ValueError, w)"
        unfolding p commit_fields_Cons by simp
      with True None show ?thesis by (auto simp: p)
    next
      case (Some v)
      from assign_field_ok [OF d] obtain cfg where cfg: "assign_field c k v (config_data w) = Inr cfg"
        by blast
      let ?w1 = "w\<lparr>config_data := cfg\<rparr>"
      have step: "commit_fields c (p # fs) w = commit_fields c fs ?w1"
        unfolding p commit_fields_Cons using True Some cfg by simp
      from assign_field_Inr [OF cfg] d have "\<exists>d. map_of (config_data ?w1) c = Some (JObj d)"
        by (auto simp: map_of_setitem)
      from Cons.IH [OF this] step True Some show ?thesis by (auto simp: p)
    qed
  qed
qed

lemma fits_Cons:
  "fits ((c, e) # ws) cfg =
     ((contains c cfg \<longrightarrow> (\<exists>fs. e = Fields fs) \<and> (\<exists>d. map_of cfg c = Some (JObj d))) \<and>
      fits ws cfg)"
  by (auto simp: fits_def)

lemma fits_keys:
  assumes "map fst cfg' = map fst cfg"
    and "\<forall>c. is_obj (the (map_of cfg' c)) = is_obj (the (map_of cfg c))"
  shows "fits ws cfg' = fits ws cfg"
proof -
  have c: "contains c cfg' = contains c cfg" for c using assms(1) by (simp add: contains_iff)
  have d: "(\<exists>d. map_of cfg' c = Some (JObj d)) = (\<exists>d. map_of cfg c = Some (JObj d))"
    if "contains c cfg" for c
  proof -
    from that obtain v where v: "map_of cfg c = Some v" by (auto simp: contains_def)
    from that c [of c] obtain v' where v': "map_of cfg' c = Some v'" by (auto simp: contains_def)
    from assms(2) [rule_format, of c] v v' show ?thesis
      by (cases v; cases v') (simp_all add: is_obj_def)
  qed
  show ?thesis unfolding fits_def using c d by (auto simp: case_prod_unfold)
qed

text \<open>
  With every category of the form a dictionary of the document and no label or title key
  in the document, the commit completes when every text parses and fails with
  \<^verbatim>\<open>ValueError\<close> otherwise.
\<close>

lemma commit_widgets_outcome:
  assumes "fits ws (config_data w)"
  shows "(\<exists>w'. commit_widgets ws w = (None, w') \<and>
            (\<forall>c fs k i. (c, Fields fs) \<in> set ws \<and> contains c (config_data w) \<and> (k, i) \<in> set fs \<and>
               is_control (objs w i) \<longrightarrow> entry_value (objs w i) \<noteq> None)) \<or>
         (\<exists>w'. commit_widgets ws w = (Some ValueError, w') \<and>
            (\<exists>c fs k i. (c, Fields fs) \<in> set ws \<and> contains c (config_data w) \<and> (k, i) \<in> set fs \<and>
               is_control (objs w i) \<and> entry_value (objs w i) = None))"
  using assms
proof (induction ws arbitrary: w)
  case Nil
  then show ?case by simp
next
  case (Cons p ws)
  obtain c0 e where p: "p = (c0, e)" by (cases p)
  from Cons.prems have rdy: "fits ws (config_data w)"
    and hd: "contains c0 (config_data w) \<Longrightarrow> (\<exists>fs. e = Fields fs) \<and> (\<exists>d. map_of (config_data w) c0 = Some (JObj d))"
    by (simp_all add: p fits_Cons)
  show ?case
  proof (cases "contains c0 (config_data w)")
    case False
    then have step: "commit_widgets (p # ws) w = commit_widgets ws w" by (simp add: p)
    from Cons.IH [OF rdy]
    consider (ok2) w' where "commit_widgets ws w = (None, w')"
        "\<forall>c fs k i. (c, Fields fs) \<in> set ws \<and> contains c (config_data w) \<and> (k, i) \<in> set fs \<and>
             is_control (objs w i) \<longrightarrow> entry_value (objs w i) \<noteq> None"
      | (bad2) w' c fs k i where "commit_widgets ws w = (Some ValueError, w')"
        "(c, Fields fs) \<in> set ws" "contains c (config_data w)" "(k, i) \<in> set fs"
        "is_control (objs w i)" "entry_value (objs w i) = None"
      by blast
    then show ?thesis
    proof cases
      case bad2
      then have "(c, Fields fs) \<in> set (p # ws) \<and> contains c (config_data w) \<and> (k, i) \<in> set fs \<and>
             is_control (objs w i) \<and> entry_value (objs w i) = None"
        by simp
      with bad2(1) step show ?thesis by metis
    next
      case ok2
      have "\<forall>c fs k i. (c, Fields fs) \<in> set (p # ws) \<and> contains c (config_data w) \<and> (k, i) \<in> set fs \<and>
             is_control (objs w i) \<longrightarrow> entry_value (objs w i) \<noteq> None"
      proof (intro allI impI)
        fix c fs k i
        assume a: "(c, Fields fs) \<in> set (p # ws) \<and> contains c (config_data w) \<and> (k, i) \<in> set fs \<and>
             is_control (objs w i)"
        with False have "(c, Fields fs) \<in> set ws" by (auto simp: p)
        with ok2(2) a show "entry_value (objs w i) \<noteq> None" by metis
      qed
      with ok2(1) step show ?thesis by metis
    qed
  next
    case True
    from hd [OF True] obtain fs0 where e: "e = Fields fs0"
      and d: "\<exists>d. map_of (config_data w) c0 = Some (JObj d)" by blast
    from commit_fields_outcome [OF d, of fs0]
    consider (ok) w1 where "commit_fields c0 fs0 w = (None, w1)"
        "\<forall>(k, i) \<in> set fs0. is_control (objs w i) \<longrightarrow> entry_value (objs w i) \<noteq> None"
      | (bad) w1 k i where "commit_fields c0 fs0 w = (Some ValueError, w1)"
        "(k, i) \<in> set fs0" "is_control (objs w i)" "entry_value (objs w i) = None"
      by blast
    then show ?thesis
    proof cases
      case bad
      then have "commit_widgets (p # ws) w = (Some ValueError, w1)" using True e by (simp add: p)
      moreover have "(c0, Fields fs0) \<in> set (p # ws)" by (simp add: p e)
      ultimately show ?thesis using True bad(2,3,4) by blast
    next
      case ok
      have step: "commit_widgets (p # ws) w = commit_widgets ws w1" using True e ok(1) by (simp add: p)
      have o: "objs w1 = objs w" using ok(1) by (rule commit_fields_objs)
      have cont: "contains c (config_data w1) = contains c (config_data w)" for c
        using ok(1) by (rule commit_fields_contains)
      have "fits ws (config_data w1)"
        using fits_keys [of "config_data w1" "config_data w" ws] commit_fields_keys [OF ok(1)] rdy
        by simp
      from Cons.IH [OF this]
      consider (ok2) w' where "commit_widgets ws w1 = (None, w')"
          "\<forall>c fs k i. (c, Fields fs) \<in> set ws \<and> contains c (config_data w1) \<and> (k, i) \<in> set fs \<and>
               is_control (objs w1 i) \<longrightarrow> entry_value (objs w1 i) \<noteq> None"
        | (bad2) w' c fs k i where "commit_widgets ws w1 = (Some ValueError, w')"
          "(c, Fields fs) \<in> set ws" "contains c (config_data w1)" "(k, i) \<in> set fs"
          "is_control (objs w1 i)" "entry_value (objs w1 i) = None"
        by blast
      then show ?thesis
      proof cases
        case bad2
        then have "(c, Fields fs) \<in> set (p # ws) \<and> contains c (config_data w) \<and> (k, i) \<in> set fs \<and>
               is_control (objs w i) \<and> entry_value (objs w i) = None"
          using o cont by simp
        with bad2(1) step show ?thesis by metis
      next
        case ok2
        have "\<forall>c fs k i. (c, Fields fs) \<in> set (p # ws) \<and> contains c (config_data w) \<and> (k, i) \<in> set fs \<and>
               is_control (objs w i) \<longrightarrow> entry_value (objs w i) \<noteq> None"
        proof (intro allI impI)
          fix c fs k i
          assume a: "(c, Fields fs) \<in> set (p # ws) \<and> contains c (config_data w) \<and> (k, i) \<in> set fs \<and>
               is_control (objs w i)"
          then consider "c = c0" "fs = fs0" | "(c, Fields fs) \<in> set ws" by (auto simp: p e)
          then show "entry_value (objs w i) \<noteq> None"
          proof cases
            case 1
            with ok(2) a show ?thesis by auto
          next
            case 2
            with ok2(2) a o cont show ?thesis by metis
          qed
        qed
        with ok2(1) step show ?thesis by metis
      qed
    qed
  qed
qed

section \<open>What reading and writing refuse\<close>

lemma first_error_Some: "first_error es = Some e \<Longrightarrow> Some e \<in> set es"
  by (induction es rule: first_error.induct) auto

lemma first_error_None: "first_error es = None \<longleftrightarrow> (\<forall>x \<in> set es. x = None)"
  by (induction es rule: first_error.induct) auto

lemma refused_kinds: "refused j r = Some e \<Longrightarrow> e = ValueError \<or> e = RecursionError"
proof (induction j arbitrary: r e)
  case (JList xs)
  show ?case
  proof (cases r)
    case 0
    with JList.prems show ?thesis by simp
  next
    case (Suc r')
    with JList.prems have "Some e \<in> set (map (\<lambda>f. f r') (map refused xs))"
      by (auto dest: first_error_Some)
    then obtain x where "x \<in> set xs" "refused x r' = Some e" by auto
    then show ?thesis by (rule JList.IH)
  qed
next
  case (JObj d)
  show ?case
  proof (cases r)
    case 0
    with JObj.prems show ?thesis by simp
  next
    case (Suc r')
    with JObj.prems have "Some e \<in> set (map (\<lambda>kf. snd kf r') (map (map_prod id refused) d))"
      by (auto dest: first_error_Some)
    then obtain kv where kv: "kv \<in> set d" "refused (snd kv) r' = Some e" by auto
    have "snd kv \<in> Basic_BNFs.snds kv" by (cases kv) simp
    from JObj.IH [OF kv(1) this kv(2)] show ?thesis .
  qed
qed (simp_all split: if_splits)

lemma refused_JObj_None:
  "refused (JObj d) r = None \<longleftrightarrow> (\<exists>r'. r = Suc r' \<and> (\<forall>kv \<in> set d. refused (snd kv) r' = None))"
  by (cases r) (auto simp: first_error_None)


lemma refused_scalar:
  "refused (JBool b) r = None" "refused JNull r = None" "refused (JStr s) r = None"
  "refused (JInt n) r = None \<longleftrightarrow> int_digits n \<le> max_str_digits"
  by auto

declare refused.simps(5,6) [simp del]

section \<open>Rendering and reading integers\<close>

lemma digit_char_props:
  assumes "d < 10"
  shows "is_digit (digit_char d)" "digit_val (digit_char d) = d" "\<not> is_space (digit_char d)"
    "digit_char d \<noteq> CHR ''-''" "digit_char d \<noteq> CHR ''+''"
proof -
  from assms have "d \<in> {0, 1, 2, 3, 4, 5, 6, 7, 8, 9}" by auto
  then show "is_digit (digit_char d)" "digit_val (digit_char d) = d" "\<not> is_space (digit_char d)"
    "digit_char d \<noteq> CHR ''-''" "digit_char d \<noteq> CHR ''+''"
    by (auto simp: digit_char_def is_digit_def digit_val_def is_space_def)
qed

lemma dec_digits: "digit_chars (dec n) \<and> dec n \<noteq> []"
proof (induction n rule: dec.induct)
  case (1 n)
  show ?case
  proof (cases "n < 10")
    case True
    then show ?thesis by (auto simp: dec.simps [of n] digit_chars_def)
  next
    case False
    with 1 have "digit_chars (dec (n div 10))" by simp
    moreover have "n mod 10 < 10" by simp
    ultimately show ?thesis using False
      by (auto simp: dec.simps [of n] digit_chars_def intro: exI [of _ "n mod 10"])
  qed
qed

lemma parse_digits_all:
  "digit_chars s \<Longrightarrow> parse_digits acc s = Some (foldl (\<lambda>a c. 10 * a + digit_val c) acc s)"
proof (induction s arbitrary: acc)
  case Nil
  then show ?case by simp
next
  case (Cons c s)
  from Cons.prems obtain d where "d < 10" "c = digit_char d" by (auto simp: digit_chars_def)
  then have "is_digit c" using digit_char_props(1) by simp
  moreover from Cons.prems have "digit_chars s" by (simp add: digit_chars_def)
  ultimately show ?case using Cons.IH by simp
qed

lemma foldl_dec: "foldl (\<lambda>a c. 10 * a + digit_val c) 0 (dec n) = n"
proof (induction n rule: dec.induct)
  case (1 n)
  show ?case
  proof (cases "n < 10")
    case True
    then show ?thesis by (simp add: dec.simps [of n] digit_char_props)
  next
    case False
    have "n mod 10 < 10" by simp
    then have "digit_val (digit_char (n mod 10)) = n mod 10" by (rule digit_char_props)
    with False 1 show ?thesis by (simp add: dec.simps [of n])
  qed
qed

lemma parse_nat_dec: "parse_nat (dec n) = Some n"
proof -
  from dec_digits [of n] obtain c cs where cs: "dec n = c # cs" by (cases "dec n") auto
  with dec_digits [of n] have dc: "digit_chars (c # cs)" by simp
  then obtain d where "d < 10" "c = digit_char d" by (auto simp: digit_chars_def)
  then have c: "is_digit c" using digit_char_props(1) by simp
  from dc have "digit_chars cs" by (simp add: digit_chars_def)
  then have "parse_digits (digit_val c) cs = Some (foldl (\<lambda>a c. 10 * a + digit_val c) (digit_val c) cs)"
    by (rule parse_digits_all)
  also have "foldl (\<lambda>a c. 10 * a + digit_val c) (digit_val c) cs
           = foldl (\<lambda>a c. 10 * a + digit_val c) 0 (c # cs)" by simp
  also have "\<dots> = n" using foldl_dec [of n] by (simp only: cs)
  finally have "parse_digits (digit_val c) cs = Some n" .
  then show ?thesis using c by (simp add: parse_nat_def cs)
qed

lemma strip_no_space: "\<forall>c \<in> set s. \<not> is_space c \<Longrightarrow> strip s = s"
proof -
  assume a: "\<forall>c \<in> set s. \<not> is_space c"
  then have "dropWhile is_space s = s" by (cases s) auto
  moreover from a have "\<forall>c \<in> set (rev s). \<not> is_space c" by simp
  then have "dropWhile is_space (rev s) = rev s" by (cases "rev s") simp_all
  ultimately show ?thesis by (simp add: strip_def)
qed

lemma digit_chars_no_space: "digit_chars s \<Longrightarrow> \<forall>c \<in> set s. \<not> is_space c"
  using digit_char_props(3) by (auto simp: digit_chars_def)

lemma strip_str_int: "strip (str_int n) = str_int n"
proof -
  have "\<not> is_space CHR ''-''" by (simp add: is_space_def)
  then show ?thesis
    using digit_chars_no_space [OF conjunct1 [OF dec_digits]]
    by (auto simp: str_int_def intro!: strip_no_space)
qed

lemma str_int_nonempty: "str_int n \<noteq> []"
  using dec_digits by (simp add: str_int_def)

lemma filter_digit_chars: "digit_chars s \<Longrightarrow> filter is_digit s = s"
  using digit_char_props(1) by (auto simp: digit_chars_def intro!: filter_True)

lemma digits_str_int: "length (filter is_digit (str_int n)) = int_digits n"
proof -
  have m: "\<not> is_digit CHR ''-''" by (simp add: is_digit_def)
  have d: "filter is_digit (dec k) = dec k" for k
    using dec_digits [of k] by (simp add: filter_digit_chars)
  show ?thesis
  proof (cases "n < 0")
    case True
    then have "nat \<bar>n\<bar> = nat (- n)" by simp
    with True m d show ?thesis by (simp add: str_int_def int_digits_def)
  next
    case False
    then have "nat \<bar>n\<bar> = nat n" by simp
    with False d show ?thesis by (simp add: str_int_def int_digits_def)
  qed
qed

lemma py_int_str_int:
  assumes "int_digits n \<le> max_str_digits"
  shows "py_int (str_int n) = Some n"
proof -
  from assms have l: "\<not> max_str_digits < length (filter is_digit (str_int n))"
    by (simp add: digits_str_int)
  show ?thesis
  proof (cases "n < 0")
    case True
    then show ?thesis
      using l by (simp add: py_int_def strip_str_int) (simp add: str_int_def parse_nat_dec)
  next
    case False
    from dec_digits [of "nat n"] obtain c cs where cs: "dec (nat n) = c # cs" by (cases "dec (nat n)") auto
    with dec_digits [of "nat n"] obtain d where "d < 10" "c = digit_char d"
      by (auto simp: digit_chars_def)
    then have c: "c \<noteq> CHR ''-''" "c \<noteq> CHR ''+''" using digit_char_props(4,5) by simp_all
    have "py_int (str_int n) = map_option int (parse_nat (dec (nat n)))"
      using False c l by (simp add: py_int_def strip_str_int) (simp add: str_int_def cs)
    then show ?thesis using False by (simp add: parse_nat_dec)
  qed
qed

lemma filter_dropWhile:
  assumes "\<And>x. Q x \<Longrightarrow> \<not> P x"
  shows "filter P (dropWhile Q xs) = filter P xs"
  using assms by (induction xs) auto

lemma filter_digit_strip: "filter is_digit (strip s) = filter is_digit s"
proof -
  have n: "\<not> is_digit x" if "is_space x" for x
    using that by (auto simp: is_space_def is_digit_def Let_def)
  have "filter is_digit (strip s)
          = rev (filter is_digit (dropWhile is_space (rev (dropWhile is_space s))))"
    by (simp add: strip_def rev_filter)
  also have "\<dots> = rev (filter is_digit (rev (dropWhile is_space s)))"
    using n by (simp add: filter_dropWhile)
  also have "\<dots> = filter is_digit (dropWhile is_space s)" by (simp add: rev_filter)
  also have "\<dots> = filter is_digit s" using n by (simp add: filter_dropWhile)
  finally show ?thesis .
qed

lemma strip_idem: "strip (strip s) = strip s"
proof -
  define t where "t = dropWhile is_space s"
  define u where "u = dropWhile is_space (rev t)"
  have s: "strip s = rev u" by (simp add: strip_def t_def u_def)
  have u: "dropWhile is_space u = u" unfolding u_def by (rule dropWhile_idem)
  have "dropWhile is_space (rev u) = rev u"
  proof (cases "u = []")
    case True then show ?thesis by simp
  next
    case False
    obtain ys where ys: "rev t = ys @ u" unfolding u_def
      by (metis takeWhile_dropWhile_id)
    then have t: "t = rev u @ rev ys" by (metis rev_append rev_rev_ident)
    from False have "rev u \<noteq> []" by simp
    then have "hd (rev u) = hd t" using t by simp
    moreover have "t \<noteq> []" using t False by simp
    then have "\<not> is_space (hd t)" unfolding t_def by (rule hd_dropWhile)
    ultimately show ?thesis using \<open>rev u \<noteq> []\<close> by (cases "rev u") auto
  qed
  then have "strip (rev u) = rev u" using u by (simp add: strip_def)
  then show ?thesis by (simp add: s)
qed

lemma py_int_strip: "py_int (strip s) = py_int s"
  by (simp add: py_int_def strip_idem filter_digit_strip)

section \<open>The size of what \<^verbatim>\<open>int\<close> reads\<close>

lemma digit_val_le: "is_digit c \<Longrightarrow> digit_val c \<le> 9"
  unfolding is_digit_def digit_val_def by arith

lemma underscore_no_digit: "\<not> is_digit CHR ''_''" "\<not> is_digit CHR ''-''" "\<not> is_digit CHR ''+''"
  by (simp_all add: is_digit_def)

lemma parse_digits_bound:
  "parse_digits acc cs = Some m \<Longrightarrow> m < (acc + 1) * 10 ^ length (filter is_digit cs)"
proof (induction acc cs rule: parse_digits.induct)
  case (1 acc)
  then show ?case by simp
next
  case (2 acc c cs)
  show ?case
  proof (cases "is_digit c")
    case True
    with 2 have "m < (10 * acc + digit_val c + 1) * 10 ^ length (filter is_digit cs)" by simp
    also have "\<dots> \<le> (10 * acc + 10) * 10 ^ length (filter is_digit cs)"
      using digit_val_le [OF True] by (intro mult_right_mono) simp_all
    finally show ?thesis using True by (simp add: algebra_simps)
  next
    case False
    show ?thesis
    proof (cases "c = CHR ''_''")
      case c: True
      with False 2(3) obtain d ds where ds: "cs = d # ds" "is_digit d"
        and p: "parse_digits (10 * acc + digit_val d) ds = Some m"
        by (cases cs) (auto split: if_splits)
      from 2(2) [OF False c ds(1) ds(2) p]
      have "m < (10 * acc + digit_val d + 1) * 10 ^ length (filter is_digit ds)" .
      also have "\<dots> \<le> (10 * acc + 10) * 10 ^ length (filter is_digit ds)"
        using digit_val_le [OF ds(2)] by (intro mult_right_mono) simp_all
      finally show ?thesis using False ds by (simp add: algebra_simps)
    next
      case False
      with \<open>\<not> is_digit c\<close> 2(3) show ?thesis by simp
    qed
  qed
qed

lemma parse_nat_bound:
  assumes "parse_nat cs = Some m"
  shows "filter is_digit cs \<noteq> [] \<and> m < 10 ^ length (filter is_digit cs)"
proof -
  from assms obtain c cs' where cs: "cs = c # cs'" "is_digit c"
    and p: "parse_digits (digit_val c) cs' = Some m"
    by (cases cs) (auto simp: parse_nat_def split: if_splits)
  from parse_digits_bound [OF p] have "m < (digit_val c + 1) * 10 ^ length (filter is_digit cs')" .
  also have "\<dots> \<le> 10 * 10 ^ length (filter is_digit cs')"
    using digit_val_le [OF cs(2)] by (intro mult_right_mono) simp_all
  finally show ?thesis using cs by simp
qed

lemma length_dec_le: "0 < k \<Longrightarrow> n < 10 ^ k \<Longrightarrow> length (dec n) \<le> k"
proof (induction n arbitrary: k rule: dec.induct)
  case (1 n)
  show ?case
  proof (cases "n < 10")
    case True
    with 1(2) show ?thesis by (simp add: dec.simps [of n])
  next
    case False
    from 1(2) obtain k' where k: "k = Suc k'" by (cases k) auto
    with 1(3) False have k': "0 < k'" by (cases k') auto
    from 1(3) k have "n div 10 < 10 ^ k'" by (simp add: less_mult_imp_div_less)
    from 1(1) [OF False k' this] k False show ?thesis by (simp add: dec.simps [of n])
  qed
qed

text \<open>An integer that \<^verbatim>\<open>int\<close> returned has no more digits than the text had.\<close>

lemma py_int_digits:
  assumes "py_int s = Some n"
  shows "int_digits n \<le> max_str_digits"
proof -
  from assms have l: "length (filter is_digit s) \<le> max_str_digits"
    by (auto simp: py_int_def split: if_splits)
  from assms l obtain c cs where cs: "strip s = c # cs"
    by (cases "strip s") (auto simp: py_int_def)
  have f: "filter is_digit (c # cs) = filter is_digit s"
    using filter_digit_strip [of s] by (simp add: cs)
  have "\<exists>m t. parse_nat t = Some m \<and> nat \<bar>n\<bar> = m \<and> filter is_digit t = filter is_digit s"
  proof (cases "c = CHR ''-''")
    case True
    with assms l cs obtain m where "parse_nat cs = Some m" "n = - int m"
      by (auto simp: py_int_def)
    moreover from f True have "filter is_digit cs = filter is_digit s"
      by (simp add: underscore_no_digit)
    ultimately show ?thesis by auto
  next
    case False
    show ?thesis
    proof (cases "c = CHR ''+''")
      case True
      with assms l cs obtain m where "parse_nat cs = Some m" "n = int m"
        by (auto simp: py_int_def)
      moreover from f True have "filter is_digit cs = filter is_digit s"
        by (simp add: underscore_no_digit)
      ultimately show ?thesis by auto
    next
      case p: False
      with False assms l cs obtain m where "parse_nat (c # cs) = Some m" "n = int m"
        by (auto simp: py_int_def)
      with f show ?thesis by auto
    qed
  qed
  then obtain m t where t: "parse_nat t = Some m" "nat \<bar>n\<bar> = m" "filter is_digit t = filter is_digit s"
    by blast
  from parse_nat_bound [OF t(1)] have "0 < length (filter is_digit t)" "m < 10 ^ length (filter is_digit t)"
    by simp_all
  then have "length (dec m) \<le> length (filter is_digit t)" by (rule length_dec_le)
  with t l show ?thesis by (simp add: int_digits_def)
qed

text \<open>A text of at most nine digits reads as an integer in 0..999,999,999.\<close>

lemma foldl_digits_bound:
  "digit_chars s \<Longrightarrow> foldl (\<lambda>a c. 10 * a + digit_val c) acc s < (acc + 1) * 10 ^ length s"
proof (induction s arbitrary: acc)
  case Nil
  then show ?case by simp
next
  case (Cons c s)
  from Cons.prems obtain d where "d < 10" "c = digit_char d" by (auto simp: digit_chars_def)
  then have d: "digit_val c \<le> 9" using digit_char_props(2) [of d] by simp
  from Cons.prems have "digit_chars s" by (simp add: digit_chars_def)
  from Cons.IH [OF this, of "10 * acc + digit_val c"]
  have "foldl (\<lambda>a c. 10 * a + digit_val c) (10 * acc + digit_val c) s
          < (10 * acc + digit_val c + 1) * 10 ^ length s" .
  also have "\<dots> \<le> (10 * acc + 10) * 10 ^ length s"
    using d by (intro mult_right_mono) simp_all
  finally show ?case by (simp add: algebra_simps)
qed

lemma py_int_short:
  assumes "digit_chars s" "s \<noteq> []" "length s \<le> 9"
  shows "\<exists>n. py_int s = Some n \<and> 0 \<le> n \<and> n \<le> 999999999"
proof -
  from assms(2) obtain c cs where cs: "s = c # cs" by (cases s) auto
  with assms(1) obtain d where "d < 10" "c = digit_char d" by (auto simp: digit_chars_def)
  then have c: "c \<noteq> CHR ''-''" "c \<noteq> CHR ''+''" "is_digit c"
    using digit_char_props(1,4,5) by simp_all
  from assms(1) cs have dc: "digit_chars cs" by (simp add: digit_chars_def)
  let ?m = "foldl (\<lambda>a c. 10 * a + digit_val c) 0 s"
  have "parse_nat s = Some ?m"
    using c(3) parse_digits_all [OF dc, of "digit_val c"] by (simp add: parse_nat_def cs)
  moreover have "strip s = s"
    using strip_no_space [OF digit_chars_no_space [OF assms(1)]] .
  moreover have "length (filter is_digit s) \<le> max_str_digits"
    using le_trans [OF length_filter_le [of is_digit s] assms(3)] by (simp add: max_str_digits_def)
  ultimately have p: "py_int s = Some (int ?m)"
    using c(1,2) by (simp add: py_int_def cs)
  from foldl_digits_bound [OF assms(1), of 0] have "?m < 10 ^ length s" by simp
  also have "\<dots> \<le> (10::nat) ^ 9" using assms(3) by (intro power_increasing) simp_all
  finally have "int ?m \<le> 999999999" by simp
  with p show ?thesis by simp
qed

section \<open>When \<^verbatim>\<open>populate_ui\<close> completes\<close>

lemma populate_fields_ok:
  "\<exists>d. map_of (config_data w) c = Some (JObj d) \<Longrightarrow> \<exists>w'. populate_fields c fs w = (None, w')"
proof (induction fs arbitrary: w)
  case Nil
  then show ?case by simp
next
  case (Cons p fs)
  obtain key i where p: "p = (key, i)" by (cases p)
  from Cons.prems obtain d where d: "map_of (config_data w) c = Some (JObj d)" by blast
  have t: "\<exists>d. map_of (config_data (setText i s w)) c = Some (JObj d)" for s
    using d by (simp add: setText_frame(1))
  have ch: "\<exists>d. map_of (config_data (setChecked i b w)) c = Some (JObj d)" for b
    using d by (simp add: setChecked_frame(1))
  from Cons.IH [OF Cons.prems] Cons.IH [OF t] Cons.IH [OF ch]
  show ?case using d by (simp add: p split: option.splits)
qed

lemma populate_widgets_ok:
  "fits ws (config_data w) \<Longrightarrow> \<exists>w'. populate_widgets ws w = (None, w')"
proof (induction ws arbitrary: w)
  case Nil
  then show ?case by simp
next
  case (Cons p ws)
  obtain c e where p: "p = (c, e)" by (cases p)
  from Cons.prems have rdy: "fits ws (config_data w)"
    and hd: "contains c (config_data w) \<Longrightarrow> (\<exists>fs. e = Fields fs) \<and> (\<exists>d. map_of (config_data w) c = Some (JObj d))"
    by (simp_all add: p fits_Cons)
  show ?case
  proof (cases "contains c (config_data w)")
    case False
    with Cons.IH [OF rdy] show ?thesis by (simp add: p)
  next
    case True
    from hd [OF True] obtain fs where e: "e = Fields fs"
      and d: "\<exists>d. map_of (config_data w) c = Some (JObj d)" by blast
    from populate_fields_ok [OF d, of fs] obtain w1 where w1: "populate_fields c fs w = (None, w1)"
      by blast
    from populate_fields_frame [OF w1] rdy have "fits ws (config_data w1)" by simp
    from Cons.IH [OF this] True e w1 show ?thesis by (simp add: p)
  qed
qed

lemma populate_widgets_no_widget_key:
  "populate_widgets ws w = (None, w') \<Longrightarrow> (c, Widget j) \<in> set ws \<Longrightarrow>
     \<not> contains c (config_data w)"
proof (induction ws arbitrary: w)
  case Nil
  then show ?case by simp
next
  case (Cons p ws)
  obtain c0 e where p: "p = (c0, e)" by (cases p)
  show ?case
  proof (cases "contains c0 (config_data w)")
    case False
    with Cons.prems(1) have r: "populate_widgets ws w = (None, w')" by (simp add: p)
    show ?thesis
    proof (cases "(c, Widget j) \<in> set ws")
      case True
      from Cons.IH [OF r True] show ?thesis .
    next
      case False
      with Cons.prems(2) have "c = c0" by (auto simp: p)
      with \<open>\<not> contains c0 (config_data w)\<close> show ?thesis by simp
    qed
  next
    case True
    show ?thesis
    proof (cases e)
      case (Widget x)
      with Cons.prems(1) True show ?thesis by (simp add: p)
    next
      case (Fields fs)
      obtain eo1 w1 where f: "populate_fields c0 fs w = (eo1, w1)" by (cases "populate_fields c0 fs w")
      with Cons.prems(1) True Fields have eo1: "eo1 = None" and r: "populate_widgets ws w1 = (None, w')"
        by (auto simp: p split: option.splits)
      from Cons.prems(2) Fields have "(c, Widget j) \<in> set ws" by (auto simp: p)
      from Cons.IH [OF r this] populate_fields_frame [OF f] show ?thesis by simp
    qed
  qed
qed

section \<open>Windows of the shape that \<^verbatim>\<open>init_ui\<close> builds\<close>

lemma ui_shape_initial: "ui_shape initial_window"
  by (simp add: ui_shape_def)

lemma ui_shape_same: "ui_shape w \<Longrightarrow> same_ui w w' \<Longrightarrow> ui_shape w'"
  by (simp add: ui_shape_def same_ui_def)

lemma ui_shape_config [simp]: "ui_shape (w\<lparr>config_data := cfg\<rparr>) = ui_shape w"
  by (simp add: ui_shape_def)

lemma ui_shape_widgets: "ui_shape w \<Longrightarrow> widgets w = ui_widgets"
  by (simp add: ui_shape_def initial_window_facts)

lemma ui_shape_kind:
  assumes "ui_shape w" "i < 55"
  shows "wkind (objs w i) = ui_kinds ! i"
proof -
  from assms(1) have "map (\<lambda>i. wkind (objs w i)) [0..<55] = ui_kinds"
    by (simp add: ui_shape_def initial_window_facts)
  then have "map (\<lambda>i. wkind (objs w i)) [0..<55] ! i = ui_kinds ! i" by simp
  with assms(2) show ?thesis by simp
qed

lemma features_entry:
  "map_of ui_widgets ''features'' =
     Some (Fields [(''roleplay_enabled'', 1), (''speeding_bonus_enabled'', 2),
                   (''zigzag_bonus_enabled'', 3), (''police_features_enabled'', 4),
                   (''money_per_minute_enabled'', 5), (''cool_message_enabled'', 6)])"
  by (simp add: ui_widgets_def)

lemma afd_ok:
  assumes "ui_shape w"
  shows "apply_feature_dependencies w =
           Inr (w\<lparr>objs := fold (setEnabled (isChecked (objs w 1))) [2, 3, 4, 19, 42] (objs w)\<rparr>)"
proof -
  have k: "wkind (objs w 1) = CheckBox"
    using ui_shape_kind [OF assms, of 1] by (simp add: ui_kinds_def)
  have r: "roleplay_dependent_widgets w = [2, 3, 4, 19, 42]"
    using assms by (simp add: ui_shape_def initial_window_facts)
  show ?thesis
    unfolding apply_feature_dependencies_def ui_shape_widgets [OF assms] features_entry
    using k r by (simp add: Let_def)
qed

lemma populate_ui_ok:
  assumes "ui_shape w" "fits ui_widgets (config_data w)"
  shows "\<exists>w'. populate_ui w = (None, w') \<and> config_data w' = config_data w \<and> ui_shape w'"
proof -
  from populate_widgets_ok [of ui_widgets w] assms obtain w1
    where w1: "populate_widgets (widgets w) w = (None, w1)"
    by (auto simp: ui_shape_widgets)
  from populate_widgets_frame [OF w1] assms(1) have s1: "ui_shape w1" "config_data w1 = config_data w"
    using ui_shape_same by auto
  from afd_ok [OF s1(1)] obtain w2 where w2: "apply_feature_dependencies w1 = Inr w2" by blast
  from afd_frame(1,2) [OF w2] s1 have "ui_shape w2" "config_data w2 = config_data w"
    using ui_shape_same by auto
  moreover have "populate_ui w = (None, w2)" using w1 w2 by (simp add: populate_ui_def)
  ultimately show ?thesis by blast
qed

section \<open>The defaults table\<close>

lemma defaults_facts:
  "distinct (map fst FALLBACK_DEFAULTS)"
  "\<forall>cf \<in> set FALLBACK_DEFAULTS. snd cf \<noteq> []"
  "\<forall>cf \<in> set FALLBACK_DEFAULTS. distinct (map fst (snd cf))"
  by (simp_all add: FALLBACK_DEFAULTS_def)

lemma copy_defaults_populated: "fully_populated copy_defaults"
  by (simp add: fully_populated_def copy_defaults_def FALLBACK_DEFAULTS_def has_fields_def contains_def)

lemma map_of_map_JObj:
  "map_of (map (\<lambda>(k, v). (k, JObj v)) cats) c = map_option JObj (map_of cats c)"
  by (induction cats) auto

lemma map_of_copy_defaults:
  "map_of copy_defaults c = map_option JObj (map_of FALLBACK_DEFAULTS c)"
  unfolding copy_defaults_def by (rule map_of_map_JObj)

text \<open>The label and title keys are no categories of the table; the categories of the form are.\<close>

lemma ui_widgets_categories:
  "list_all (\<lambda>ce. case snd ce of
                    Widget _ \<Rightarrow> map_of FALLBACK_DEFAULTS (fst ce) = None
                  | Fields _ \<Rightarrow> map_of FALLBACK_DEFAULTS (fst ce) \<noteq> None) ui_widgets"
  by (simp add: ui_widgets_def FALLBACK_DEFAULTS_def)

section \<open>Loading\<close>

text \<open>The document that the defaulting pass starts from.\<close>

lemma load_config_cases:
  assumes "load_config dk w = Inr w'"
  obtains (fallback) "content dk = Missing \<or> content dk = Unparsable"
      "default_categories FALLBACK_DEFAULTS copy_defaults = Inr (config_data w')"
      "populate_ui (w\<lparr>config_data := config_data w'\<rparr>) = (None, w')"
  | (parsed) cfg where "content dk = Holds (JObj cfg)"
      "refused (JObj cfg) (load_depth dk) = None"
      "default_categories FALLBACK_DEFAULTS cfg = Inr (config_data w')"
      "populate_ui (w\<lparr>config_data := config_data w'\<rparr>) = (None, w')"
proof -
  have *: thesis
    if "default_categories FALLBACK_DEFAULTS cfg0 = Inr cfg1"
      and "populate_ui (w\<lparr>config_data := cfg1\<rparr>) = (eo, w1)" and "eo = None" and "w' = w1"
      and "(content dk = Missing \<or> content dk = Unparsable) \<and> cfg0 = copy_defaults \<or>
           content dk = Holds (JObj cfg0) \<and> refused (JObj cfg0) (load_depth dk) = None"
    for cfg0 cfg1 eo w1
  proof -
    from populate_ui_frame [OF that(2)] that(4) have c: "config_data w' = cfg1" by simp
    from that(5) show thesis
    proof
      assume "(content dk = Missing \<or> content dk = Unparsable) \<and> cfg0 = copy_defaults"
      with that(1,2,3,4) c show thesis using fallback by simp
    next
      assume "content dk = Holds (JObj cfg0) \<and> refused (JObj cfg0) (load_depth dk) = None"
      with that(1,2,3,4) c show thesis using parsed by simp
    qed
  qed
  show thesis
  proof (cases "content dk")
    case Missing
    with assms * show ?thesis
      by (auto simp: load_config_def read_json_def split: sum.splits option.splits prod.splits)
  next
    case Denied
    with assms show ?thesis by (simp add: load_config_def read_json_def)
  next
    case NotUTF8
    with assms show ?thesis by (simp add: load_config_def read_json_def)
  next
    case Unparsable
    with assms * show ?thesis
      by (auto simp: load_config_def read_json_def split: sum.splits option.splits prod.splits)
  next
    case (Holds j)
    show ?thesis
    proof (cases "refused j (load_depth dk)")
      case (Some e)
      from refused_kinds [OF Some] have "e \<noteq> FileNotFoundError" "e \<noteq> JSONDecodeError" by auto
      with assms Holds Some show ?thesis by (simp add: load_config_def read_json_def)
    next
      case None
      with assms Holds * show ?thesis
        by (cases j) (auto simp: load_config_def read_json_def split: sum.splits option.splits prod.splits)
    qed
  qed
qed

lemma MainWindow_eq: "MainWindow dk = load_config dk initial_window"
  by (simp add: MainWindow_def init_ui_ok and_then_def)

lemma defaults_map_of:
  "(c, flds) \<in> set FALLBACK_DEFAULTS \<Longrightarrow> map_of FALLBACK_DEFAULTS c = Some flds"
  using defaults_facts(1) by simp

lemma defaults_field:
  "(c, flds) \<in> set FALLBACK_DEFAULTS \<Longrightarrow> (k, v) \<in> set flds \<Longrightarrow> map_of flds k = Some v"
  using defaults_facts(3) by force

lemma field_of_copy_defaults:
  "(c, flds) \<in> set FALLBACK_DEFAULTS \<Longrightarrow> field_of copy_defaults c k = map_of flds k"
  by (simp add: field_of_def map_of_copy_defaults defaults_map_of)

lemma default_of_eq:
  "default_of c k = (case map_of FALLBACK_DEFAULTS c of None \<Rightarrow> None | Some flds \<Rightarrow> map_of flds k)"
  by (simp add: default_of_def field_of_def map_of_copy_defaults split: option.splits)

text \<open>The defaulting pass on the document of the file, and on the copy of the defaults.\<close>

lemma load_config_fields:
  assumes "load_config dk w = Inr w'"
  shows "c \<notin> fst ` set FALLBACK_DEFAULTS \<Longrightarrow> map_of (config_data w') c = map_of (file_doc dk) c"
    and "(c, flds) \<in> set FALLBACK_DEFAULTS \<Longrightarrow>
          \<exists>d. map_of (config_data w') c = Some (JObj d) \<and>
            (\<forall>k. map_of d k = (case field_of (file_doc dk) c k of None \<Rightarrow> map_of flds k | Some x \<Rightarrow> Some x))"
  using assms
proof (atomize (full), cases rule: load_config_cases)
  case fallback
  note r = default_categories_Inr [OF fallback(2) defaults_facts(1,2)]
  have fd: "file_doc dk = []" using fallback(1) by (auto simp: file_doc_def)
  have a: "c \<notin> fst ` set FALLBACK_DEFAULTS \<Longrightarrow> map_of (config_data w') c = map_of (file_doc dk) c"
  proof -
    assume n: "c \<notin> fst ` set FALLBACK_DEFAULTS"
    then have "map_of FALLBACK_DEFAULTS c = None" by (simp add: map_of_eq_None_iff)
    with r n show ?thesis by (simp add: fd map_of_copy_defaults)
  qed
  have b: "\<exists>d. map_of (config_data w') c = Some (JObj d) \<and>
            (\<forall>k. map_of d k = (case field_of (file_doc dk) c k of None \<Rightarrow> map_of flds k | Some x \<Rightarrow> Some x))"
    if m: "(c, flds) \<in> set FALLBACK_DEFAULTS"
  proof -
    from r m obtain d where d: "map_of (config_data w') c = Some (JObj d)"
      "\<forall>k. map_of d k = (case field_of copy_defaults c k of None \<Rightarrow> map_of flds k | Some x \<Rightarrow> Some x)"
      by blast
    have "map_of d k = map_of flds k" for k
      using d(2) field_of_copy_defaults [OF m, of k] by (simp split: option.splits)
    with d(1) show ?thesis by (simp add: fd field_of_def)
  qed
  from a b show "(c \<notin> fst ` set FALLBACK_DEFAULTS \<longrightarrow> map_of (config_data w') c = map_of (file_doc dk) c) \<and>
    ((c, flds) \<in> set FALLBACK_DEFAULTS \<longrightarrow> (\<exists>d. map_of (config_data w') c = Some (JObj d) \<and>
            (\<forall>k. map_of d k = (case field_of (file_doc dk) c k of None \<Rightarrow> map_of flds k | Some x \<Rightarrow> Some x))))"
    by blast
next
  case (parsed cfg)
  note r = default_categories_Inr [OF parsed(3) defaults_facts(1,2)]
  have fd: "file_doc dk = cfg" using parsed(1) by (simp add: file_doc_def)
  from r show "(c \<notin> fst ` set FALLBACK_DEFAULTS \<longrightarrow> map_of (config_data w') c = map_of (file_doc dk) c) \<and>
    ((c, flds) \<in> set FALLBACK_DEFAULTS \<longrightarrow> (\<exists>d. map_of (config_data w') c = Some (JObj d) \<and>
            (\<forall>k. map_of d k = (case field_of (file_doc dk) c k of None \<Rightarrow> map_of flds k | Some x \<Rightarrow> Some x))))"
    unfolding fd by blast
qed

lemma ui_widgets_key:
  assumes "(c, e) \<in> set ui_widgets"
  shows "case e of Widget _ \<Rightarrow> map_of FALLBACK_DEFAULTS c = None
                 | Fields _ \<Rightarrow> map_of FALLBACK_DEFAULTS c \<noteq> None"
proof -
  from ui_widgets_categories
  have "\<forall>ce \<in> set ui_widgets. case snd ce of
                    Widget _ \<Rightarrow> map_of FALLBACK_DEFAULTS (fst ce) = None
                  | Fields _ \<Rightarrow> map_of FALLBACK_DEFAULTS (fst ce) \<noteq> None"
    by (simp only: list_all_iff)
  from this [rule_format, OF assms] show ?thesis by (cases e) simp_all
qed

lemma fits_ui:
  assumes "\<And>c j. (c, Widget j) \<in> set ui_widgets \<Longrightarrow> \<not> contains c cfg"
    and "\<And>c. map_of FALLBACK_DEFAULTS c \<noteq> None \<Longrightarrow> contains c cfg \<Longrightarrow> \<exists>d. map_of cfg c = Some (JObj d)"
  shows "fits ui_widgets cfg"
  unfolding fits_def
proof (intro ballI, clarify)
  fix c e assume m: "(c, e) \<in> set ui_widgets" and c: "contains c cfg"
  have k: "case e of Widget _ \<Rightarrow> map_of FALLBACK_DEFAULTS c = None
                   | Fields _ \<Rightarrow> map_of FALLBACK_DEFAULTS c \<noteq> None"
    using ui_widgets_key [OF m] by simp
  show "(\<exists>fs. e = Fields fs) \<and> (\<exists>d. map_of cfg c = Some (JObj d))"
  proof (cases e)
    case (Widget j)
    with m c assms(1) show ?thesis by blast
  next
    case (Fields fs)
    with k assms(2) [OF _ c] show ?thesis by simp
  qed
qed

lemma fits_copy_defaults: "fits ui_widgets copy_defaults"
proof (rule fits_ui)
  fix c j assume "(c, Widget j) \<in> set ui_widgets"
  from ui_widgets_key [OF this] have "map_of FALLBACK_DEFAULTS c = None" by simp
  then show "\<not> contains c copy_defaults" by (simp add: contains_def map_of_copy_defaults)
next
  fix c assume "map_of FALLBACK_DEFAULTS c \<noteq> None"
  then show "\<exists>d. map_of copy_defaults c = Some (JObj d)" by (auto simp: map_of_copy_defaults)
qed

lemma default_categories_ok:
  assumes "\<forall>cf \<in> set cats. case map_of cfg (fst cf) of None \<Rightarrow> True | Some v \<Rightarrow> is_obj v"
    and "distinct (map fst cats)"
  shows "\<exists>cfg'. default_categories cats cfg = Inr cfg'"
  using assms
proof (induction cats arbitrary: cfg)
  case Nil
  then show ?case by simp
next
  case (Cons p rest)
  obtain c flds where p: "p = (c, flds)" by (cases p)
  define cfg1 where "cfg1 = (if \<not> contains c cfg then setitem c (JObj []) cfg else cfg)"
  have "\<exists>d. map_of cfg1 c = Some (JObj d)"
  proof (cases "map_of cfg c")
    case None
    then show ?thesis by (simp add: cfg1_def contains_def map_of_setitem)
  next
    case (Some v)
    with Cons.prems(1) have "is_obj v" by (simp add: p)
    with Some show ?thesis by (cases v) (simp_all add: cfg1_def contains_def is_obj_def)
  qed
  then obtain d where d: "map_of cfg1 c = Some (JObj d)" by blast
  from default_fields_obj [of flds d] obtain d' where d': "default_fields flds (JObj d) = Inr (JObj d')"
    by blast
  have o: "map_of (setitem c (JObj d') cfg1) c' = map_of cfg c'" if "c' \<noteq> c" for c'
    using that by (simp add: cfg1_def map_of_setitem)
  have "\<forall>cf \<in> set rest. case map_of (setitem c (JObj d') cfg1) (fst cf) of None \<Rightarrow> True | Some v \<Rightarrow> is_obj v"
  proof
    fix cf assume m: "cf \<in> set rest"
    with Cons.prems(2) have "fst cf \<noteq> c" by (auto simp: p)
    with o Cons.prems(1) m show "case map_of (setitem c (JObj d') cfg1) (fst cf) of None \<Rightarrow> True | Some v \<Rightarrow> is_obj v"
      by simp
  qed
  moreover from Cons.prems(2) have "distinct (map fst rest)" by simp
  ultimately obtain cfg' where "default_categories rest (setitem c (JObj d') cfg1) = Inr cfg'"
    using Cons.IH by blast
  then show ?case using d d' by (simp add: p cfg1_def [symmetric] Let_def)
qed

lemma loadable_D:
  assumes "loadable cfg"
  shows "\<forall>cf \<in> set FALLBACK_DEFAULTS. case map_of cfg (fst cf) of None \<Rightarrow> True | Some v \<Rightarrow> is_obj v"
    and "(c, Widget j) \<in> set ui_widgets \<Longrightarrow> \<not> contains c cfg"
proof -
  from assms show "\<forall>cf \<in> set FALLBACK_DEFAULTS. case map_of cfg (fst cf) of None \<Rightarrow> True | Some v \<Rightarrow> is_obj v"
    by (simp add: loadable_def list_all_iff)
  from assms have "\<forall>ce \<in> set ui_widgets. case snd ce of Widget _ \<Rightarrow> \<not> contains (fst ce) cfg | Fields _ \<Rightarrow> True"
    by (simp add: loadable_def list_all_iff)
  from this [rule_format, of "(c, Widget j)"]
  show "(c, Widget j) \<in> set ui_widgets \<Longrightarrow> \<not> contains c cfg" by simp
qed

lemma loadable_I:
  assumes "\<And>c flds. (c, flds) \<in> set FALLBACK_DEFAULTS \<Longrightarrow> map_of cfg c = None \<or> (\<exists>d. map_of cfg c = Some (JObj d))"
    and "\<And>c j. (c, Widget j) \<in> set ui_widgets \<Longrightarrow> \<not> contains c cfg"
  shows "loadable cfg"
proof -
  have "\<forall>cf \<in> set FALLBACK_DEFAULTS. case map_of cfg (fst cf) of None \<Rightarrow> True | Some v \<Rightarrow> is_obj v"
  proof
    fix cf assume "cf \<in> set FALLBACK_DEFAULTS"
    then have "(fst cf, snd cf) \<in> set FALLBACK_DEFAULTS" by simp
    from assms(1) [OF this] show "case map_of cfg (fst cf) of None \<Rightarrow> True | Some v \<Rightarrow> is_obj v"
      by (auto simp: is_obj_def)
  qed
  moreover have "\<forall>ce \<in> set ui_widgets. case snd ce of Widget _ \<Rightarrow> \<not> contains (fst ce) cfg | Fields _ \<Rightarrow> True"
  proof
    fix ce assume m: "ce \<in> set ui_widgets"
    show "case snd ce of Widget _ \<Rightarrow> \<not> contains (fst ce) cfg | Fields _ \<Rightarrow> True"
    proof (cases "snd ce")
      case (Widget j)
      with m have "(fst ce, Widget j) \<in> set ui_widgets" by (metis prod.collapse)
      from assms(2) [OF this] Widget show ?thesis by simp
    next
      case (Fields fs)
      then show ?thesis by simp
    qed
  qed
  ultimately show ?thesis by (simp add: loadable_def list_all_iff)
qed

text \<open>The defaulted document of a loadable one fits the form.\<close>

lemma fits_defaulted:
  assumes "default_categories FALLBACK_DEFAULTS cfg = Inr cfg1"
    and "\<And>c j. (c, Widget j) \<in> set ui_widgets \<Longrightarrow> \<not> contains c cfg"
  shows "fits ui_widgets cfg1"
proof (rule fits_ui)
  note r = default_categories_Inr [OF assms(1) defaults_facts(1,2)]
  {
    fix c j assume m: "(c, Widget j) \<in> set ui_widgets"
    from ui_widgets_key [OF m] have "map_of FALLBACK_DEFAULTS c = None" by simp
    then have "c \<notin> fst ` set FALLBACK_DEFAULTS" by (simp add: map_of_eq_None_iff)
    with r have "map_of cfg1 c = map_of cfg c" by blast
    with assms(2) [OF m] show "\<not> contains c cfg1" by (simp add: contains_def)
  next
    fix c assume "map_of FALLBACK_DEFAULTS c \<noteq> None"
    then obtain flds where "(c, flds) \<in> set FALLBACK_DEFAULTS" by (auto dest: map_of_SomeD)
    with r show "\<exists>d. map_of cfg1 c = Some (JObj d)" by blast
  }
qed

lemma load_config_ok:
  assumes "ui_shape w"
    and "content dk = Missing \<or> content dk = Unparsable \<or>
         (\<exists>cfg. content dk = Holds (JObj cfg) \<and> refused (JObj cfg) (load_depth dk) = None \<and> loadable cfg)"
  shows "\<exists>w'. load_config dk w = Inr w' \<and> ui_shape w'"
proof -
  have *: "\<exists>w'. (case default_categories FALLBACK_DEFAULTS cfg of
             Inl e \<Rightarrow> Inl e
           | Inr cfg1 \<Rightarrow>
               (case populate_ui (w\<lparr>config_data := cfg1\<rparr>) of
                  (Some e, _) \<Rightarrow> Inl e
                | (None, w1) \<Rightarrow> Inr w1)) = Inr w' \<and> ui_shape w'" if "loadable cfg" for cfg
  proof -
    from default_categories_ok [OF loadable_D(1) [OF that] defaults_facts(1)]
    obtain cfg1 where c1: "default_categories FALLBACK_DEFAULTS cfg = Inr cfg1" by blast
    have "fits ui_widgets cfg1"
      by (rule fits_defaulted [OF c1]) (rule loadable_D(2) [OF that])
    with populate_ui_ok [of "w\<lparr>config_data := cfg1\<rparr>"] assms(1)
    obtain w' where "populate_ui (w\<lparr>config_data := cfg1\<rparr>) = (None, w')" "ui_shape w'" by auto
    with c1 show ?thesis by simp
  qed
  have ld: "loadable copy_defaults"
  proof (rule loadable_I)
    fix c flds assume "(c, flds) \<in> set FALLBACK_DEFAULTS"
    then show "map_of copy_defaults c = None \<or> (\<exists>d. map_of copy_defaults c = Some (JObj d))"
      by (simp add: map_of_copy_defaults defaults_map_of)
  next
    fix c j assume "(c, Widget j) \<in> set ui_widgets"
    from ui_widgets_key [OF this] show "\<not> contains c copy_defaults"
      by (simp add: contains_def map_of_copy_defaults)
  qed
  from assms(2) consider "content dk = Missing" | "content dk = Unparsable"
    | cfg where "content dk = Holds (JObj cfg)" "refused (JObj cfg) (load_depth dk) = None"
        "loadable cfg" by blast
  then show ?thesis
  proof cases
    case 1 with * [OF ld] show ?thesis by (simp add: load_config_def read_json_def)
  next
    case 2 with * [OF ld] show ?thesis by (simp add: load_config_def read_json_def)
  next
    case 3 with * [OF 3(3)] show ?thesis by (simp add: load_config_def read_json_def)
  qed
qed

lemma load_config_fallback:
  assumes "load_config dk w = Inr w'" "content dk = Missing \<or> content dk = Unparsable"
  shows "config_data w' = copy_defaults"
  using assms(1)
proof (cases rule: load_config_cases)
  case fallback
  from default_categories_populated [of copy_defaults FALLBACK_DEFAULTS] copy_defaults_populated
  have "default_categories FALLBACK_DEFAULTS copy_defaults = Inr copy_defaults"
    by (simp add: fully_populated_def)
  with fallback(2) show ?thesis by simp
next
  case (parsed cfg)
  with assms(2) show ?thesis by simp
qed

lemma load_config_loadable:
  assumes "load_config dk w = Inr w'" "widgets w = ui_widgets" "content dk = Holds (JObj cfg)"
  shows "loadable cfg"
  using assms(1)
proof (cases rule: load_config_cases)
  case fallback
  with assms(3) show ?thesis by auto
next
  case (parsed cfg0)
  with assms(3) have eq: "cfg0 = cfg" by simp
  note r = default_categories_Inr [OF parsed(3) [unfolded eq] defaults_facts(1,2)]
  let ?w = "w\<lparr>config_data := config_data w'\<rparr>"
  obtain eo1 w1 where pw: "populate_widgets (widgets ?w) ?w = (eo1, w1)"
    by (cases "populate_widgets (widgets ?w) ?w")
  with parsed(4) have "eo1 = None" by (auto simp: populate_ui_def split: option.splits sum.splits)
  with pw assms(2) have pw': "populate_widgets ui_widgets ?w = (None, w1)" by simp
  show ?thesis
  proof (rule loadable_I)
    fix c flds assume "(c, flds) \<in> set FALLBACK_DEFAULTS"
    with r show "map_of cfg c = None \<or> (\<exists>d. map_of cfg c = Some (JObj d))" by blast
  next
    fix c j assume m: "(c, Widget j) \<in> set ui_widgets"
    from populate_widgets_no_widget_key [OF pw' m] have n: "\<not> contains c (config_data w')" by simp
    from ui_widgets_key [OF m] have "map_of FALLBACK_DEFAULTS c = None" by simp
    then have "c \<notin> fst ` set FALLBACK_DEFAULTS" by (simp add: map_of_eq_None_iff)
    with r have "map_of (config_data w') c = map_of cfg c" by blast
    with n show "\<not> contains c cfg" by (simp add: contains_def)
  qed
qed

lemma loadable_example:
  "loadable [(''money'', JObj [(''starting_money'', JInt 500)])]"
  by (simp add: loadable_def FALLBACK_DEFAULTS_def ui_widgets_def is_obj_def contains_def)

section \<open>The controls of the form\<close>

lemmas ev = list.inject char.inject prod.inject simp_thms list.distinct distinct.simps list.set
  insert_iff empty_iff de_Morgan_disj de_Morgan_conj list.map fst_conv snd_conv

lemma ui_widgets_distinct: "distinct (map fst ui_widgets)"
  unfolding ui_widgets_def by (simp only: ev)

lemma ui_controls:
  "controls ui_widgets =
     [(''features'', ''roleplay_enabled'', 1), (''features'', ''speeding_bonus_enabled'', 2),
      (''features'', ''zigzag_bonus_enabled'', 3), (''features'', ''police_features_enabled'', 4),
      (''features'', ''money_per_minute_enabled'', 5), (''features'', ''cool_message_enabled'', 6),
      (''general'', ''autosave_interval_ms'', 9),
      (''money'', ''starting_money'', 12), (''money'', ''money_per_minute_amount'', 14),
      (''money'', ''money_per_minute_interval_ms'', 16), (''money'', ''cool_message_interval_ms'', 18),
      (''civilian'', ''speeding_limit_kmh'', 21), (''civilian'', ''speeding_bonus_per_second'', 23),
      (''civilian'', ''speeding_bonus_duration_ms'', 25), (''civilian'', ''speeding_cooldown_ms'', 27),
      (''civilian'', ''min_speed_kmh_for_zigzag'', 29), (''civilian'', ''zigzag_min_turns'', 31),
      (''civilian'', ''zigzag_final_bonus_amount'', 33), (''civilian'', ''zigzag_prorated_bonus'', 35),
      (''civilian'', ''zigzag_bonus_duration_ms'', 37), (''civilian'', ''zigzag_cooldown_ms'', 39),
      (''civilian'', ''wanted_fail_penalty'', 41),
      (''police'', ''police_proximity_range_m'', 44), (''police'', ''busted_range_m'', 46),
      (''police'', ''busted_stop_time_ms'', 48), (''police'', ''busted_speed_limit_kmh'', 50),
      (''police'', ''bust_bonus_amount'', 52), (''police'', ''police_bonus_per_second'', 54)]"
  by (simp add: controls_def ui_widgets_def)

lemma ui_controls_distinct:
  "distinct (map (\<lambda>cki. (fst cki, fst (snd cki))) (controls ui_widgets))"
  "distinct (map (\<lambda>cki. snd (snd cki)) (controls ui_widgets))"
  unfolding ui_controls by simp_all

lemma ui_controls_agree: "list_all control_agrees (controls ui_widgets)"
  unfolding ui_controls
  by (simp add: control_agrees_def default_of_def field_of_def copy_defaults_def FALLBACK_DEFAULTS_def ui_kinds_def)

lemma defaults_have_controls:
  "list_all (\<lambda>cf. list_all (\<lambda>kv. \<exists>i. (fst cf, fst kv, i) \<in> set (controls ui_widgets)) (snd cf))
     FALLBACK_DEFAULTS"
  unfolding ui_controls by (simp add: FALLBACK_DEFAULTS_def)


lemma ui_fields_distinct:
  "list_all (\<lambda>ce. case snd ce of Widget _ \<Rightarrow> True | Fields fs \<Rightarrow> distinct (map fst fs)) ui_widgets"
  by (simp add: ui_widgets_def)

lemma controls_iff:
  "(c, k, i) \<in> set (controls ws) \<longleftrightarrow> (\<exists>fs. (c, Fields fs) \<in> set ws \<and> (k, i) \<in> set fs)"
proof (induction ws)
  case Nil
  then show ?case by (simp add: controls_def)
next
  case (Cons p ws)
  obtain c0 e where p: "p = (c0, e)" by (cases p)
  have "controls (p # ws) = (case e of Widget _ \<Rightarrow> [] | Fields fs \<Rightarrow> map (\<lambda>ki. (c0, fst ki, snd ki)) fs) @ controls ws"
    by (cases e) (simp_all add: controls_def p)
  with Cons show ?case by (cases e) (auto simp: p)
qed

lemma ui_fields_distinctD: "(c, Fields fs) \<in> set ui_widgets \<Longrightarrow> distinct (map fst fs)"
proof -
  assume m: "(c, Fields fs) \<in> set ui_widgets"
  from ui_fields_distinct
  have "\<forall>ce \<in> set ui_widgets. case snd ce of Widget _ \<Rightarrow> True | Fields fs \<Rightarrow> distinct (map fst fs)"
    by (simp only: list_all_iff)
  from this [rule_format, OF m] show ?thesis by simp
qed

lemma ui_control_agrees: "(c, k, i) \<in> set (controls ui_widgets) \<Longrightarrow> control_agrees (c, k, i)"
  using ui_controls_agree by (simp add: list_all_iff)

lemma ui_control_kind:
  assumes "ui_shape w" "(c, k, i) \<in> set (controls ui_widgets)"
  shows "(\<exists>n. default_of c k = Some (JInt n)) \<and> wkind (objs w i) = LineEdit \<or>
         (\<exists>b. default_of c k = Some (JBool b)) \<and> wkind (objs w i) = CheckBox"
proof -
  from ui_control_agrees [OF assms(2)] have i: "i < 55"
    and d: "case default_of c k of
           Some (JInt _) \<Rightarrow> ui_kinds ! i = LineEdit
         | Some (JBool _) \<Rightarrow> ui_kinds ! i = CheckBox
         | _ \<Rightarrow> False"
    by (simp_all add: control_agrees_def)
  from ui_shape_kind [OF assms(1) i] d show ?thesis
    by (auto split: option.splits json.splits)
qed

lemma ui_control_is_control:
  "ui_shape w \<Longrightarrow> (c, k, i) \<in> set (controls ui_widgets) \<Longrightarrow> is_control (objs w i)"
  using ui_control_kind [of w c k i] by (auto simp: is_control_def)

lemma default_has_control:
  assumes "(c, flds) \<in> set FALLBACK_DEFAULTS" "(k, v) \<in> set flds"
  shows "\<exists>i. (c, k, i) \<in> set (controls ui_widgets)"
proof -
  from defaults_have_controls
  have "\<forall>cf \<in> set FALLBACK_DEFAULTS. \<forall>kv \<in> set (snd cf). \<exists>i. (fst cf, fst kv, i) \<in> set (controls ui_widgets)"
    by (simp only: list_all_iff)
  from this [rule_format, OF assms(1), of "(k, v)"] assms(2) show ?thesis by simp
qed

section \<open>The commit in a window of the form\<close>

lemma commit_done_ui:
  assumes "ui_shape w" "commit w = (None, w')" "(c, k, i) \<in> set (controls ui_widgets)"
    and "contains c (config_data w)"
  shows "entry_value (objs w i) \<noteq> None \<and> field_of (config_data w') c k = entry_value (objs w i)"
proof -
  from assms(3) obtain fs where fs: "(c, Fields fs) \<in> set ui_widgets" "(k, i) \<in> set fs"
    by (auto simp: controls_iff)
  from assms(1,2) have "commit_widgets ui_widgets w = (None, w')"
    by (simp add: commit_def ui_shape_widgets)
  from commit_widgets_done [OF this ui_widgets_distinct fs(1) ui_fields_distinctD [OF fs(1)] assms(4) fs(2)
      ui_control_is_control [OF assms(1,3)]]
  show ?thesis .
qed

lemma commit_either_ui:
  assumes "ui_shape w" "commit w = (eo, w')"
  shows "field_of (config_data w') c k = field_of (config_data w) c k \<or>
         (\<exists>i. (c, k, i) \<in> set (controls ui_widgets) \<and> entry_value (objs w i) \<noteq> None \<and>
              field_of (config_data w') c k = entry_value (objs w i))"
proof -
  from assms have "commit_widgets ui_widgets w = (eo, w')"
    by (simp add: commit_def ui_shape_widgets)
  from commit_widgets_either [OF this, of c k] show ?thesis
    by (auto simp: controls_iff)
qed

lemma commit_outcome_ui:
  assumes "ui_shape w" "fits ui_widgets (config_data w)"
  shows "(\<exists>w'. commit w = (None, w') \<and>
            (\<forall>c k i. (c, k, i) \<in> set (controls ui_widgets) \<and> contains c (config_data w)
               \<longrightarrow> entry_value (objs w i) \<noteq> None)) \<or>
         (\<exists>w'. commit w = (Some ValueError, w') \<and>
            (\<exists>c k i. (c, k, i) \<in> set (controls ui_widgets) \<and> contains c (config_data w) \<and>
               entry_value (objs w i) = None))"
proof -
  from commit_widgets_outcome [OF assms(2)]
  consider (ok) w' where "commit_widgets ui_widgets w = (None, w')"
      "\<forall>c fs k i. (c, Fields fs) \<in> set ui_widgets \<and> contains c (config_data w) \<and> (k, i) \<in> set fs \<and>
               is_control (objs w i) \<longrightarrow> entry_value (objs w i) \<noteq> None"
    | (bad) w' c fs k i where "commit_widgets ui_widgets w = (Some ValueError, w')"
      "(c, Fields fs) \<in> set ui_widgets" "contains c (config_data w)" "(k, i) \<in> set fs"
      "is_control (objs w i)" "entry_value (objs w i) = None"
    by blast
  then show ?thesis
  proof cases
    case ok
    have "\<forall>c k i. (c, k, i) \<in> set (controls ui_widgets) \<and> contains c (config_data w)
               \<longrightarrow> entry_value (objs w i) \<noteq> None"
    proof (intro allI impI)
      fix c k i assume a: "(c, k, i) \<in> set (controls ui_widgets) \<and> contains c (config_data w)"
      then obtain fs where "(c, Fields fs) \<in> set ui_widgets" "(k, i) \<in> set fs"
        by (auto simp: controls_iff)
      with ok(2) a ui_control_is_control [OF assms(1), of c k i]
      show "entry_value (objs w i) \<noteq> None" by blast
    qed
    with ok(1) assms(1) show ?thesis by (simp add: commit_def ui_shape_widgets)
  next
    case bad
    then have "(c, k, i) \<in> set (controls ui_widgets)" by (auto simp: controls_iff)
    with bad assms(1) show ?thesis by (auto simp: commit_def ui_shape_widgets)
  qed
qed

section \<open>Saving\<close>


lemma set_setitem: "set (setitem k v d) \<subseteq> insert (k, v) (set d)"
  by (induction d) auto

lemma refused_setitem:
  assumes "refused (JObj d) (Suc r) = None" "refused v r = None"
  shows "refused (JObj (setitem k v d)) (Suc r) = None"
  using assms set_setitem [of k v d] by (fastforce simp: refused_JObj_None)

lemma int_digits_0: "int_digits 0 \<le> max_str_digits"
  by (simp add: int_digits_def max_str_digits_def dec.simps)

lemma entry_value_refused:
  assumes "entry_value x = Some v"
  shows "refused v r = None"
proof -
  from assms consider b where "v = JBool b" | "v = JInt 0"
    | n t where "v = JInt n" "py_int t = Some n"
    by (auto simp: entry_value_def Let_def split: if_splits)
  then show ?thesis
  proof cases
    case 3
    from py_int_digits [OF 3(2)] 3(1) show ?thesis by simp
  qed (use int_digits_0 in \<open>simp_all add: not_less\<close>)
qed

lemma assign_field_refused:
  assumes "assign_field c k v cfg = Inr cfg'" "refused (JObj cfg) r = None" "\<And>q. refused v q = None"
  shows "refused (JObj cfg') r = None"
proof -
  from assign_field_Inr [OF assms(1)] obtain d where d: "map_of cfg c = Some (JObj d)"
    "cfg' = setitem c (JObj (setitem k v d)) cfg" by blast
  from assms(2) obtain q where q: "r = Suc q" "\<forall>kv \<in> set cfg. refused (snd kv) q = None"
    by (auto simp: refused_JObj_None)
  from d(1) have "(c, JObj d) \<in> set cfg" by (rule map_of_SomeD)
  with q(2) have "refused (JObj d) q = None" by force
  then obtain p where p: "q = Suc p" by (auto simp: refused_JObj_None)
  with \<open>refused (JObj d) q = None\<close> assms(3) have "refused (JObj (setitem k v d)) q = None"
    by (simp only: refused_setitem)
  with assms(2) show ?thesis unfolding d(2) q(1) by (rule refused_setitem)
qed

lemma commit_fields_refused:
  "commit_fields c fs w = (eo, w') \<Longrightarrow> refused (JObj (config_data w)) r = None \<Longrightarrow>
     refused (JObj (config_data w')) r = None"
proof (induction fs arbitrary: w)
  case Nil
  then show ?case by simp
next
  case (Cons p fs)
  obtain k i where p: "p = (k, i)" by (cases p)
  from Cons.prems(1) [unfolded p] show ?case
  proof (cases rule: commit_fields_Cons_cases)
    case skip
    from Cons.IH [OF skip(2) Cons.prems(2)] show ?thesis .
  next
    case value_error
    with Cons.prems(2) show ?thesis by simp
  next
    case (assign_error v e)
    with Cons.prems(2) show ?thesis by simp
  next
    case (assigned v cfg)
    from assign_field_refused [OF assigned(3) Cons.prems(2) entry_value_refused [OF assigned(2)]]
    have "refused (JObj (config_data (w\<lparr>config_data := cfg\<rparr>))) r = None" by simp
    from Cons.IH [OF assigned(4) this] show ?thesis .
  qed
qed

lemma commit_widgets_refused:
  "commit_widgets ws w = (eo, w') \<Longrightarrow> refused (JObj (config_data w)) r = None \<Longrightarrow>
     refused (JObj (config_data w')) r = None"
proof (induction ws arbitrary: w)
  case Nil
  then show ?case by simp
next
  case (Cons p ws)
  obtain c e where p: "p = (c, e)" by (cases p)
  from Cons.prems(1) [unfolded p] show ?case
  proof (cases rule: commit_widgets_Cons_cases)
    case absent
    from Cons.IH [OF absent(2) Cons.prems(2)] show ?thesis .
  next
    case (widget j)
    with Cons.prems(2) show ?thesis by simp
  next
    case (failed fs x)
    from commit_fields_refused [OF failed(3) Cons.prems(2)] show ?thesis .
  next
    case (passed fs w1)
    from Cons.IH [OF passed(4) commit_fields_refused [OF passed(3) Cons.prems(2)]] show ?thesis .
  qed
qed

lemma commit_refused:
  "commit w = (eo, w') \<Longrightarrow> refused (JObj (config_data w)) r = None \<Longrightarrow>
     refused (JObj (config_data w')) r = None"
  unfolding commit_def by (rule commit_widgets_refused)

lemma save_config_Information:
  assumes "save_config w dk = (Information, w', dk')"
  shows "commit w = (None, w')" "writable dk"
    "refused (JObj (config_data w')) (dump_depth dk) = None"
    "dk' = dk\<lparr>content := Holds (JObj (config_data w'))\<rparr>"
  using assms
  by (auto simp: save_config_def split: prod.splits option.splits if_splits)

lemma save_config_ok:
  assumes "commit w = (None, w')" "writable dk" "refused (JObj (config_data w)) (dump_depth dk) = None"
  shows "save_config w dk = (Information, w', dk\<lparr>content := Holds (JObj (config_data w'))\<rparr>)"
  using assms commit_refused [OF assms(1,3)] by (simp add: save_config_def)

lemma refused_copy_defaults: "0 < r \<Longrightarrow> refused (JObj copy_defaults) (Suc r) = None"
  by (cases r)
    (simp_all add: copy_defaults_def FALLBACK_DEFAULTS_def refused.simps max_str_digits_def
       int_digits_def dec.simps)

section \<open>Windows for the examples\<close>

lemma filled_window_facts:
  "ui_shape (filled_window t b)"
  "config_data (filled_window t b) = copy_defaults"
  "wtext (objs (filled_window t b) i) = t"
  "isChecked (objs (filled_window t b) i) = b"
  "wkind (objs (filled_window t b) i) = wkind (objs initial_window i)"
  by (simp_all add: filled_window_def ui_shape_def)


lemma entry_value_LineEdit:
  "wkind x = LineEdit \<Longrightarrow>
     entry_value x = map_option JInt (if strip (wtext x) = [] then Some 0 else py_int (wtext x))"
  by (simp add: entry_value_def Let_def py_int_strip)

lemma entry_value_CheckBox:
  "wkind x = CheckBox \<Longrightarrow> entry_value x = Some (JBool (isChecked x))"
  by (simp add: entry_value_def)

text \<open>The commit of a filled window completes when the text is blank or parses.\<close>

lemma commit_filled:
  assumes "strip t = [] \<or> py_int t \<noteq> None"
  shows "\<exists>w'. commit (filled_window t b) = (None, w')"
proof -
  let ?w = "filled_window t b"
  have ev: "entry_value (objs ?w i) \<noteq> None" if "(c, k, i) \<in> set (controls ui_widgets)" for c k i
    using ui_control_kind [OF filled_window_facts(1) that, of t b] assms
    by (auto simp: entry_value_LineEdit entry_value_CheckBox filled_window_facts)
  have "fits ui_widgets (config_data ?w)" by (simp add: filled_window_facts fits_copy_defaults)
  from commit_outcome_ui [OF filled_window_facts(1) this]
  show ?thesis
  proof (elim disjE exE conjE)
    fix w' assume "commit ?w = (None, w')"
    then show ?thesis by blast
  next
    fix w' c k i assume "(c, k, i) \<in> set (controls ui_widgets)" "entry_value (objs ?w i) = None"
    with ev show ?thesis by blast
  qed
qed

lemma save_filled:
  assumes "strip t = [] \<or> py_int t \<noteq> None"
  shows "\<exists>w'. save_config (filled_window t b) dk_missing
           = (Information, w', dk_missing\<lparr>content := Holds (JObj (config_data w'))\<rparr>)"
proof -
  from commit_filled [OF assms] obtain w' where c: "commit (filled_window t b) = (None, w')" by blast
  have "refused (JObj (config_data (filled_window t b))) (dump_depth dk_missing) = None"
    using refused_copy_defaults [of 399] by (simp add: filled_window_facts dk_missing_def)
  from save_config_ok [OF c _ this] show ?thesis by (simp add: dk_missing_def)
qed


lemma roleplay_control: "(''features'', ''roleplay_enabled'', 1) \<in> set (controls ui_widgets)"
  unfolding ui_controls by simp


lemma kind_1: "ui_shape w \<Longrightarrow> wkind (objs w 1) = CheckBox"
  using ui_shape_kind [of w 1] by (simp add: ui_kinds_def)



lemma text_42: "strip ''42'' = ''42''" "py_int ''42'' = Some 42"
  by (simp_all add: py_int_def strip_def is_space_def parse_nat_def is_digit_def digit_val_def
      max_str_digits_def)



lemma control_default:
  "(c, k, i) \<in> set (controls ui_widgets) \<Longrightarrow> default_of c k \<noteq> None"
  using ui_control_agrees [of c k i] by (auto simp: control_agrees_def split: option.splits)

lemma commit_keeps_others:
  assumes "ui_shape w" "commit w = (None, w')"
  shows "map_of FALLBACK_DEFAULTS c = None \<Longrightarrow> map_of (config_data w') c = map_of (config_data w) c"
    and "default_of c k = None \<Longrightarrow> field_of (config_data w') c k = field_of (config_data w) c k"
proof -
  from assms have cw: "commit_widgets ui_widgets w = (None, w')"
    by (simp add: commit_def ui_shape_widgets)
  note keys = commit_widgets_keys [OF cw]
  show "map_of (config_data w') c = map_of (config_data w) c" if n: "map_of FALLBACK_DEFAULTS c = None"
  proof (cases "c \<in> fst ` set ui_widgets")
    case False
    with keys show ?thesis by blast
  next
    case True
    then obtain e where m: "(c, e) \<in> set ui_widgets" by auto
    from ui_widgets_key [OF m] n obtain j where "e = Widget j" by (cases e) simp_all
    with commit_widgets_no_widget_key [OF cw] m have "\<not> contains c (config_data w)" by blast
    moreover from this commit_widgets_contains [OF cw] have "\<not> contains c (config_data w')" by simp
    ultimately show ?thesis by (simp add: contains_def)
  qed
  show "field_of (config_data w') c k = field_of (config_data w) c k" if "default_of c k = None"
    using commit_either_ui [OF assms, of c k] control_default [of c k] that by auto
qed

lemma loadable_extra:
  "loadable [(''extra'', JInt 7), (''money'', JObj [(''bonus'', JInt 1)])]"
  by (simp add: loadable_def FALLBACK_DEFAULTS_def ui_widgets_def is_obj_def contains_def)



section \<open>The types of the values\<close>

lemma default_of_iff:
  "default_of c k = Some d \<longleftrightarrow> (\<exists>flds. (c, flds) \<in> set FALLBACK_DEFAULTS \<and> (k, d) \<in> set flds)"
proof
  assume "default_of c k = Some d"
  then obtain flds where "map_of FALLBACK_DEFAULTS c = Some flds" "map_of flds k = Some d"
    by (auto simp: default_of_eq split: option.splits)
  then show "\<exists>flds. (c, flds) \<in> set FALLBACK_DEFAULTS \<and> (k, d) \<in> set flds"
    by (auto dest: map_of_SomeD)
next
  assume "\<exists>flds. (c, flds) \<in> set FALLBACK_DEFAULTS \<and> (k, d) \<in> set flds"
  then obtain flds where m: "(c, flds) \<in> set FALLBACK_DEFAULTS" "(k, d) \<in> set flds" by blast
  from defaults_map_of [OF m(1)] defaults_field [OF m] show "default_of c k = Some d"
    by (simp add: default_of_eq)
qed

lemma all_fields_iff:
  "list_all (\<lambda>cf. list_all (\<lambda>kv. case field_of cfg (fst cf) (fst kv) of
                                    None \<Rightarrow> False | Some v \<Rightarrow> P (snd kv) v) (snd cf))
     FALLBACK_DEFAULTS \<longleftrightarrow>
   (\<forall>c k d. default_of c k = Some d \<longrightarrow> (\<exists>v. field_of cfg c k = Some v \<and> P d v))"
  (is "?L \<longleftrightarrow> ?R")
proof
  assume l: ?L
  show ?R
  proof (intro allI impI)
    fix c k d assume "default_of c k = Some d"
    then obtain flds where m: "(c, flds) \<in> set FALLBACK_DEFAULTS" "(k, d) \<in> set flds"
      unfolding default_of_iff by blast
    from l have "\<forall>cf \<in> set FALLBACK_DEFAULTS. \<forall>kv \<in> set (snd cf).
        case field_of cfg (fst cf) (fst kv) of None \<Rightarrow> False | Some v \<Rightarrow> P (snd kv) v"
      by (simp only: list_all_iff)
    from this [rule_format, OF m(1), of "(k, d)"] m(2)
    show "\<exists>v. field_of cfg c k = Some v \<and> P d v"
      by (cases "field_of cfg c k") simp_all
  qed
next
  assume r: ?R
  have "case field_of cfg (fst cf) (fst kv) of None \<Rightarrow> False | Some v \<Rightarrow> P (snd kv) v"
    if "cf \<in> set FALLBACK_DEFAULTS" "kv \<in> set (snd cf)" for cf kv
  proof -
    from that have "default_of (fst cf) (fst kv) = Some (snd kv)"
      unfolding default_of_iff by (intro exI [of _ "snd cf"]) simp
    from r [rule_format, OF this] show ?thesis by auto
  qed
  then show ?L by (simp only: list_all_iff) blast
qed

lemma well_typed_iff:
  "well_typed cfg \<longleftrightarrow>
     (\<forall>c k d. default_of c k = Some d \<longrightarrow> (\<exists>v. field_of cfg c k = Some v \<and> value_ok d v))"
  unfolding well_typed_def by (rule all_fields_iff)

lemma typed_iff:
  "typed cfg \<longleftrightarrow>
     (\<forall>c k d. default_of c k = Some d \<longrightarrow> (\<exists>v. field_of cfg c k = Some v \<and> typed_like d v))"
  unfolding typed_def by (rule all_fields_iff)

lemma defaults_in_range:
  "list_all (\<lambda>cf. list_all (\<lambda>kv. value_ok (snd kv) (snd kv) \<and> typed_like (snd kv) (snd kv)) (snd cf))
     FALLBACK_DEFAULTS"
  by (simp add: FALLBACK_DEFAULTS_def value_ok_def typed_like_def int_digits_def max_str_digits_def
      dec.simps)

lemma default_in_range:
  assumes "default_of c k = Some d"
  shows "value_ok d d" "typed_like d d"
proof -
  from assms obtain flds where m: "(c, flds) \<in> set FALLBACK_DEFAULTS" "(k, d) \<in> set flds"
    unfolding default_of_iff by blast
  from defaults_in_range have "\<forall>cf \<in> set FALLBACK_DEFAULTS. \<forall>kv \<in> set (snd cf).
      value_ok (snd kv) (snd kv) \<and> typed_like (snd kv) (snd kv)"
    by (simp only: list_all_iff)
  from this [rule_format, OF m(1), of "(k, d)"] m(2) show "value_ok d d" "typed_like d d"
    by simp_all
qed

text \<open>What a field of the table holds after \<^verbatim>\<open>load_config\<close>.\<close>

lemma load_config_field:
  assumes "load_config dk w = Inr w'" "default_of c k = Some d"
  shows "field_of (config_data w') c k
           = Some (case field_of (file_doc dk) c k of None \<Rightarrow> d | Some x \<Rightarrow> x)"
proof -
  from assms(2) obtain flds where m: "(c, flds) \<in> set FALLBACK_DEFAULTS" "(k, d) \<in> set flds"
    unfolding default_of_iff by blast
  from load_config_fields(2) [OF assms(1) m(1)] obtain dd where
    d: "map_of (config_data w') c = Some (JObj dd)"
       "\<And>k. map_of dd k = (case field_of (file_doc dk) c k of None \<Rightarrow> map_of flds k | Some x \<Rightarrow> Some x)"
    by blast
  from defaults_field [OF m] d show ?thesis
    by (simp add: field_of_def split: option.splits)
qed

lemma load_config_all:
  assumes "load_config dk w = Inr w'"
    and "\<And>c k d. default_of c k = Some d \<Longrightarrow> P d d"
    and "\<And>c k d x. default_of c k = Some d \<Longrightarrow> field_of (file_doc dk) c k = Some x \<Longrightarrow> P d x"
  shows "\<forall>c k d. default_of c k = Some d \<longrightarrow> (\<exists>v. field_of (config_data w') c k = Some v \<and> P d v)"
proof (intro allI impI)
  fix c k d assume d: "default_of c k = Some d"
  from load_config_field [OF assms(1) d] assms(2) [OF d] assms(3) [OF d]
  show "\<exists>v. field_of (config_data w') c k = Some v \<and> P d v"
    by (cases "field_of (file_doc dk) c k") simp_all
qed

text \<open>After \<^verbatim>\<open>load_config\<close> the document fits the form.\<close>

lemma load_config_fits:
  assumes "load_config dk w = Inr w'" "widgets w = ui_widgets"
  shows "fits ui_widgets (config_data w')"
  using assms(1)
proof (cases rule: load_config_cases)
  case fallback
  from default_categories_populated [of copy_defaults FALLBACK_DEFAULTS] copy_defaults_populated
  have "default_categories FALLBACK_DEFAULTS copy_defaults = Inr copy_defaults"
    by (simp add: fully_populated_def)
  with fallback(2) have "config_data w' = copy_defaults" by simp
  then show ?thesis by (simp add: fits_copy_defaults)
next
  case (parsed cfg)
  from load_config_loadable [OF assms parsed(1)] have "loadable cfg" .
  from fits_defaulted [OF parsed(3) loadable_D(2) [OF this]] show ?thesis .
qed

lemma load_config_shape:
  assumes "load_config dk w = Inr w'" "ui_shape w"
  shows "ui_shape w'"
  using assms(1)
proof (cases rule: load_config_cases)
  case fallback
  from populate_ui_frame [OF fallback(3)] assms(2) show ?thesis
    using ui_shape_same [of "w\<lparr>config_data := config_data w'\<rparr>" w'] by simp
next
  case (parsed cfg)
  from populate_ui_frame [OF parsed(4)] assms(2) show ?thesis
    using ui_shape_same [of "w\<lparr>config_data := config_data w'\<rparr>" w'] by simp
qed

text \<open>What a field of the table holds after a commit that completes.\<close>

lemma commit_field:
  assumes "ui_shape w" "commit w = (None, w')" "default_of c k = Some d" "contains c (config_data w)"
  shows "\<exists>v. field_of (config_data w') c k = Some v \<and> typed_like d v \<and>
             (short_numbers w \<longrightarrow> value_ok d v)"
proof -
  from assms(3) obtain flds where m: "(c, flds) \<in> set FALLBACK_DEFAULTS" "(k, d) \<in> set flds"
    unfolding default_of_iff by blast
  from default_has_control [OF m] obtain i where i: "(c, k, i) \<in> set (controls ui_widgets)" by blast
  from commit_done_ui [OF assms(1,2) i assms(4)]
  have e: "entry_value (objs w i) \<noteq> None" "field_of (config_data w') c k = entry_value (objs w i)"
    by simp_all
  from ui_control_kind [OF assms(1) i] assms(3)
  consider n where "d = JInt n" "wkind (objs w i) = LineEdit"
    | b where "d = JBool b" "wkind (objs w i) = CheckBox" by auto
  then show ?thesis
  proof cases
    case 1
    let ?t = "wtext (objs w i)"
    from e(1) 1(2) obtain z where z: "entry_value (objs w i) = Some (JInt z)"
      "strip ?t = [] \<and> z = 0 \<or> strip ?t \<noteq> [] \<and> py_int ?t = Some z"
      by (auto simp: entry_value_LineEdit split: if_splits)
    from z(2) have dg: "int_digits z \<le> max_str_digits"
      using int_digits_0 py_int_digits by auto
    have "0 \<le> z \<and> z \<le> 999999999" if s: "short_numbers w"
    proof -
      from s i 1(2) have "short_number ?t" by (auto simp: short_numbers_def list_all_iff)
      then have sn: "digit_chars (strip ?t)" "length (strip ?t) \<le> 9" by (simp_all add: short_number_def)
      from z(2) show ?thesis
      proof
        assume "strip ?t = [] \<and> z = 0"
        then show ?thesis by simp
      next
        assume a: "strip ?t \<noteq> [] \<and> py_int ?t = Some z"
        from py_int_short [OF sn(1) conjunct1 [OF a] sn(2)] a show ?thesis
          by (simp add: py_int_strip)
      qed
    qed
    with z(1) e(2) dg 1(1) show ?thesis by (simp add: typed_like_def value_ok_def)
  next
    case 2
    with e(2) show ?thesis by (simp add: entry_value_CheckBox typed_like_def value_ok_def)
  qed
qed

lemma dk_negative_loads:
  "\<exists>w'. load_config dk_negative initial_window = Inr w'"
proof -
  have "loadable [(''money'', JObj [(''starting_money'', JInt (- 5))])]"
    by (simp add: loadable_def FALLBACK_DEFAULTS_def ui_widgets_def is_obj_def contains_def)
  moreover have "refused (JObj [(''money'', JObj [(''starting_money'', JInt (- 5))])])
      (load_depth dk_negative) = None"
    by (simp add: dk_negative_def refused.simps max_str_digits_def int_digits_def dec.simps)
  moreover have "content dk_negative = Holds (JObj [(''money'', JObj [(''starting_money'', JInt (- 5))])])"
    by (simp add: dk_negative_def)
  ultimately show ?thesis using load_config_ok [OF ui_shape_initial, of dk_negative] by blast
qed

lemma starting_money_default: "default_of ''money'' ''starting_money'' = Some (JInt 3333)"
  by (simp add: default_of_eq FALLBACK_DEFAULTS_def)

section \<open>The claims\<close>

text \<open>
  C5. Whatever the document was, \<^verbatim>\<open>reset_to_defaults\<close> confirmed with Yes leaves the copy of
  the defaults table as the document, every category and field at its default and nothing
  else; answered with No it changes nothing. In a window of the shape of the form the
  reset raises no exception.
\<close>

theorem reset_yields_defaults:
  "config_data (snd (reset_to_defaults Yes w)) = copy_defaults \<and>
   (\<forall>c. map_of (config_data (snd (reset_to_defaults Yes w))) c
          = map_option JObj (map_of FALLBACK_DEFAULTS c)) \<and>
   reset_to_defaults No w = (None, w) \<and>
   (ui_shape w \<longrightarrow> fst (reset_to_defaults Yes w) = None)"
proof -
  obtain eo w' where r: "populate_ui (w\<lparr>config_data := copy_defaults\<rparr>) = (eo, w')"
    by (cases "populate_ui (w\<lparr>config_data := copy_defaults\<rparr>)")
  from populate_ui_frame [OF r] have c: "config_data w' = copy_defaults" by simp
  have "eo = None" if "ui_shape w"
    using populate_ui_ok [of "w\<lparr>config_data := copy_defaults\<rparr>"] that fits_copy_defaults r by auto
  with c r show ?thesis by (simp add: reset_to_defaults_def map_of_copy_defaults)
qed

theorem reset_yields_defaults_witness:
  "ui_shape initial_window \<and>
   config_data (snd (reset_to_defaults Yes initial_window)) = copy_defaults \<and>
   fst (reset_to_defaults Yes initial_window) = None"
  using reset_yields_defaults [of initial_window] ui_shape_initial by simp

text \<open>
  C1. When \<^verbatim>\<open>load_config\<close> returns, every category of the defaults table is a dictionary of
  the document, every field of the table is in it, holding the value of the file when the
  file has the field and the default otherwise, and every value that the file provides
  under a category is still there.
\<close>

theorem load_config_defaulting:
  assumes "load_config dk w = Inr w'"
  shows "(\<forall>c flds. (c, flds) \<in> set FALLBACK_DEFAULTS \<longrightarrow>
            (\<exists>d. map_of (config_data w') c = Some (JObj d))) \<and>
         (\<forall>c flds k v. (c, flds) \<in> set FALLBACK_DEFAULTS \<and> (k, v) \<in> set flds \<longrightarrow>
            field_of (config_data w') c k
              = Some (case field_of (file_doc dk) c k of None \<Rightarrow> v | Some x \<Rightarrow> x)) \<and>
         (\<forall>c k x. field_of (file_doc dk) c k = Some x \<longrightarrow> field_of (config_data w') c k = Some x)"
proof (intro conjI allI impI)
  fix c flds assume "(c, flds) \<in> set FALLBACK_DEFAULTS"
  from load_config_fields(2) [OF assms this] show "\<exists>d. map_of (config_data w') c = Some (JObj d)"
    by blast
next
  fix c flds k v assume a: "(c, flds) \<in> set FALLBACK_DEFAULTS \<and> (k, v) \<in> set flds"
  from load_config_fields(2) [OF assms conjunct1 [OF a]] obtain d where
    d: "map_of (config_data w') c = Some (JObj d)"
       "\<And>k. map_of d k = (case field_of (file_doc dk) c k of None \<Rightarrow> map_of flds k | Some x \<Rightarrow> Some x)"
    by blast
  from a have "map_of flds k = Some v" using defaults_field by blast
  with d show "field_of (config_data w') c k
              = Some (case field_of (file_doc dk) c k of None \<Rightarrow> v | Some x \<Rightarrow> x)"
    by (simp add: field_of_def split: option.splits)
next
  fix c k x assume f: "field_of (file_doc dk) c k = Some x"
  show "field_of (config_data w') c k = Some x"
  proof (cases "c \<in> fst ` set FALLBACK_DEFAULTS")
    case False
    from load_config_fields(1) [OF assms False] f show ?thesis by (simp add: field_of_def)
  next
    case True
    then obtain flds where "(c, flds) \<in> set FALLBACK_DEFAULTS" by auto
    from load_config_fields(2) [OF assms this] f show ?thesis by (auto simp: field_of_def)
  qed
qed

text \<open>
  C3. The claim does not hold of the code. \<^verbatim>\<open>load_config\<close> replaces a missing file and a
  file that is not JSON by the defaults, and it is called from \<^verbatim>\<open>__init__\<close> with no handler
  around it: a file that is not UTF-8, a file that may not be read, a file that holds a
  list, and a file in which a category of the table is a number each end the start of the
  editor with an exception.
\<close>

theorem load_config_raises:
  "MainWindow \<lparr>content = NotUTF8, writable = True, load_depth = 900, dump_depth = 400\<rparr>
     = Inl UnicodeDecodeError \<and>
   MainWindow \<lparr>content = Denied, writable = True, load_depth = 900, dump_depth = 400\<rparr>
     = Inl PermissionError \<and>
   MainWindow \<lparr>content = Holds (JList []), writable = True, load_depth = 900, dump_depth = 400\<rparr>
     = Inl TypeError \<and>
   MainWindow \<lparr>content = Holds (JObj [(''money'', JInt 5)]), writable = True,
               load_depth = 900, dump_depth = 400\<rparr>
     = Inl AttributeError"
  by (simp add: MainWindow_eq load_config_def read_json_def FALLBACK_DEFAULTS_def contains_def
      refused.simps max_str_digits_def int_digits_def dec.simps)

theorem load_config_defaulting_witness:
  "\<exists>w'. load_config dk_example initial_window = Inr w' \<and>
        field_of (config_data w') ''money'' ''starting_money'' = Some (JInt 500) \<and>
        field_of (config_data w') ''money'' ''money_per_minute_amount'' = Some (JInt 10)"
proof -
  have "content dk_example = Holds (JObj [(''money'', JObj [(''starting_money'', JInt 500)])])"
    by (simp add: dk_example_def)
  moreover have "refused (JObj [(''money'', JObj [(''starting_money'', JInt 500)])]) (load_depth dk_example) = None"
    by (simp add: dk_example_def refused.simps max_str_digits_def int_digits_def dec.simps)
  ultimately obtain w' where w': "load_config dk_example initial_window = Inr w'"
    using load_config_ok [OF ui_shape_initial, of dk_example] loadable_example by auto
  have m: "(''money'',
         [(''money_per_minute_interval_ms'', JInt 60000), (''money_per_minute_amount'', JInt 10),
          (''starting_money'', JInt 3333), (''cool_message_interval_ms'', JInt 30000)]) \<in> set FALLBACK_DEFAULTS"
    by (simp add: FALLBACK_DEFAULTS_def)
  let ?money = "[(''money_per_minute_interval_ms'', JInt 60000), (''money_per_minute_amount'', JInt 10),
          (''starting_money'', JInt 3333), (''cool_message_interval_ms'', JInt 30000)]"
  have F: "field_of (config_data w') ''money'' k
              = Some (case field_of (file_doc dk_example) ''money'' k of None \<Rightarrow> v | Some x \<Rightarrow> x)"
    if "(k, v) \<in> set ?money" for k v
    using load_config_defaulting [OF w'] m that by blast
  have "field_of (config_data w') ''money'' ''starting_money''
          = Some (case field_of (file_doc dk_example) ''money'' ''starting_money'' of None \<Rightarrow> JInt 3333 | Some x \<Rightarrow> x)"
      "field_of (config_data w') ''money'' ''money_per_minute_amount''
          = Some (case field_of (file_doc dk_example) ''money'' ''money_per_minute_amount'' of None \<Rightarrow> JInt 10 | Some x \<Rightarrow> x)"
    by (rule F, simp)+
  then show ?thesis using w' by (simp add: file_doc_def dk_example_def field_of_def)
qed







text \<open>
  C7. Through a \<^verbatim>\<open>load_config\<close> that returns, every category that the defaults table does
  not have keeps the value of the file, and so does every field that the table does not
  have; a \<^verbatim>\<open>save_config\<close> that succeeds leaves both kinds of entries as they were in the
  document and writes the whole document, these entries with it, to the file.
\<close>

theorem unknown_entries_preserved:
  "(load_config dk w = Inr w' \<longrightarrow>
      (\<forall>c. map_of FALLBACK_DEFAULTS c = None \<longrightarrow>
           map_of (config_data w') c = map_of (file_doc dk) c) \<and>
      (\<forall>c k. default_of c k = None \<longrightarrow>
           field_of (config_data w') c k = field_of (file_doc dk) c k)) \<and>
   (ui_shape w \<and> save_config w dk = (Information, w', dk') \<longrightarrow>
      content dk' = Holds (JObj (config_data w')) \<and>
      (\<forall>c. map_of FALLBACK_DEFAULTS c = None \<longrightarrow>
           map_of (config_data w') c = map_of (config_data w) c) \<and>
      (\<forall>c k. default_of c k = None \<longrightarrow>
           field_of (config_data w') c k = field_of (config_data w) c k))"
proof (intro conjI impI allI)
  fix c assume l: "load_config dk w = Inr w'" and n: "map_of FALLBACK_DEFAULTS c = None"
  then have "c \<notin> fst ` set FALLBACK_DEFAULTS" by (simp add: map_of_eq_None_iff)
  from load_config_fields(1) [OF l this] show "map_of (config_data w') c = map_of (file_doc dk) c" .
next
  fix c k assume l: "load_config dk w = Inr w'" and n: "default_of c k = None"
  show "field_of (config_data w') c k = field_of (file_doc dk) c k"
  proof (cases "map_of FALLBACK_DEFAULTS c")
    case None
    then have "c \<notin> fst ` set FALLBACK_DEFAULTS" by (simp add: map_of_eq_None_iff)
    from load_config_fields(1) [OF l this] show ?thesis by (simp add: field_of_def)
  next
    case (Some flds)
    then have m: "(c, flds) \<in> set FALLBACK_DEFAULTS" by (rule map_of_SomeD)
    from n Some have "map_of flds k = None" by (simp add: default_of_eq)
    from load_config_fields(2) [OF l m] obtain d where d: "map_of (config_data w') c = Some (JObj d)"
      "\<And>k. map_of d k = (case field_of (file_doc dk) c k of None \<Rightarrow> map_of flds k | Some x \<Rightarrow> Some x)"
      by blast
    have "field_of (config_data w') c k = map_of d k" using d(1) by (simp add: field_of_def)
    also have "\<dots> = field_of (file_doc dk) c k"
      using d(2) [of k] \<open>map_of flds k = None\<close> by (cases "field_of (file_doc dk) c k") simp_all
    finally show ?thesis .
  qed
next
  assume a: "ui_shape w \<and> save_config w dk = (Information, w', dk')"
  from save_config_Information(4) [OF conjunct2 [OF a]]
  show "content dk' = Holds (JObj (config_data w'))" by simp
next
  fix c assume a: "ui_shape w \<and> save_config w dk = (Information, w', dk')"
    and n: "map_of FALLBACK_DEFAULTS c = None"
  from commit_keeps_others(1) [OF conjunct1 [OF a] save_config_Information(1) [OF conjunct2 [OF a]] n]
  show "map_of (config_data w') c = map_of (config_data w) c" .
next
  fix c k assume a: "ui_shape w \<and> save_config w dk = (Information, w', dk')"
    and n: "default_of c k = None"
  from commit_keeps_others(2) [OF conjunct1 [OF a] save_config_Information(1) [OF conjunct2 [OF a]] n]
  show "field_of (config_data w') c k = field_of (config_data w) c k" .
qed

theorem unknown_entries_preserved_witness:
  "(\<exists>w'. load_config dk_extra initial_window = Inr w' \<and>
         map_of (config_data w') ''extra'' = Some (JInt 7) \<and>
         field_of (config_data w') ''money'' ''bonus'' = Some (JInt 1)) \<and>
   (\<exists>w' dk'. save_config (filled_window ''42'' False) dk_missing = (Information, w', dk') \<and>
         content dk' = Holds (JObj (config_data w')))"
proof
  have "content dk_extra = Holds (JObj [(''extra'', JInt 7), (''money'', JObj [(''bonus'', JInt 1)])])"
    by (simp add: dk_extra_def)
  moreover have "refused (JObj [(''extra'', JInt 7), (''money'', JObj [(''bonus'', JInt 1)])])
      (load_depth dk_extra) = None"
    by (simp add: dk_extra_def refused.simps max_str_digits_def int_digits_def dec.simps)
  ultimately obtain w' where w': "load_config dk_extra initial_window = Inr w'"
    using load_config_ok [OF ui_shape_initial, of dk_extra] loadable_extra by auto
  have n: "map_of FALLBACK_DEFAULTS ''extra'' = None" "default_of ''money'' ''bonus'' = None"
    by (simp_all add: default_of_eq FALLBACK_DEFAULTS_def)
  from unknown_entries_preserved [of dk_extra initial_window w'] w' n
  have "map_of (config_data w') ''extra'' = map_of (file_doc dk_extra) ''extra''"
    "field_of (config_data w') ''money'' ''bonus'' = field_of (file_doc dk_extra) ''money'' ''bonus''"
    by blast+
  then show "\<exists>w'. load_config dk_extra initial_window = Inr w' \<and>
         map_of (config_data w') ''extra'' = Some (JInt 7) \<and>
         field_of (config_data w') ''money'' ''bonus'' = Some (JInt 1)"
    using w' by (simp add: file_doc_def dk_extra_def field_of_def)
next
  from save_filled [of "''42''" False] text_42 obtain w' where
    s: "save_config (filled_window ''42'' False) dk_missing
           = (Information, w', dk_missing\<lparr>content := Holds (JObj (config_data w'))\<rparr>)"
    by auto
  from unknown_entries_preserved [of dk_missing "filled_window ''42'' False"] s filled_window_facts(1)
  show "\<exists>w' dk'. save_config (filled_window ''42'' False) dk_missing = (Information, w', dk') \<and>
         content dk' = Holds (JObj (config_data w'))"
    by blast
qed



text \<open>
  C8, as the code has it. A confirmed reset leaves every field of the table at its
  default, a boolean or an integer in 0..999,999,999. \<^verbatim>\<open>load_config\<close> validates nothing:
  when it returns, a field of the table holds the value of the file if the file has the
  field and its default otherwise, so that the document is in range when the values of
  the file are. After a commit that completes, in a window of the form whose document has
  the categories of the table, every boolean field holds a boolean and every integer
  field an integer, and the integers lie in 0..999,999,999 when every line edit shows at
  most nine decimal digits or nothing.
\<close>

theorem value_types:
  "well_typed (config_data (snd (reset_to_defaults Yes w))) \<and>
   (load_config dk w = Inr w' \<longrightarrow>
      (\<forall>c k d. default_of c k = Some d \<longrightarrow>
         field_of (config_data w') c k
           = Some (case field_of (file_doc dk) c k of None \<Rightarrow> d | Some x \<Rightarrow> x)) \<and>
      ((\<forall>c k d x. default_of c k = Some d \<and> field_of (file_doc dk) c k = Some x \<longrightarrow> value_ok d x)
         \<longrightarrow> well_typed (config_data w'))) \<and>
   (ui_shape w \<and> (\<forall>c flds. (c, flds) \<in> set FALLBACK_DEFAULTS \<longrightarrow> contains c (config_data w)) \<and>
    commit w = (None, w') \<longrightarrow>
      typed (config_data w') \<and> (short_numbers w \<longrightarrow> well_typed (config_data w')))"
proof (intro conjI impI allI)
  obtain eo w1 where r: "populate_ui (w\<lparr>config_data := copy_defaults\<rparr>) = (eo, w1)"
    by (cases "populate_ui (w\<lparr>config_data := copy_defaults\<rparr>)")
  from populate_ui_frame [OF r] have c: "config_data w1 = copy_defaults" by simp
  have "well_typed copy_defaults"
    unfolding well_typed_iff
  proof (intro allI impI)
    fix c k d assume d: "default_of c k = Some d"
    with default_in_range(1) [OF d] show "\<exists>v. field_of copy_defaults c k = Some v \<and> value_ok d v"
      by (simp add: default_of_def)
  qed
  with c r show "well_typed (config_data (snd (reset_to_defaults Yes w)))"
    by (simp add: reset_to_defaults_def)
next
  fix c k d assume "load_config dk w = Inr w'" "default_of c k = Some d"
  then show "field_of (config_data w') c k
           = Some (case field_of (file_doc dk) c k of None \<Rightarrow> d | Some x \<Rightarrow> x)"
    by (rule load_config_field)
next
  assume l: "load_config dk w = Inr w'"
    and f: "\<forall>c k d x. default_of c k = Some d \<and> field_of (file_doc dk) c k = Some x \<longrightarrow> value_ok d x"
  from load_config_all [OF l, of value_ok] default_in_range(1) f
  show "well_typed (config_data w')" unfolding well_typed_iff by blast
next
  assume a: "ui_shape w \<and> (\<forall>c flds. (c, flds) \<in> set FALLBACK_DEFAULTS \<longrightarrow> contains c (config_data w)) \<and>
    commit w = (None, w')"
  show "typed (config_data w')"
    unfolding typed_iff
  proof (intro allI impI)
    fix c k d assume d: "default_of c k = Some d"
    then have "contains c (config_data w)" using a unfolding default_of_iff by blast
    from commit_field [OF _ _ d this] a show "\<exists>v. field_of (config_data w') c k = Some v \<and> typed_like d v"
      by blast
  qed
next
  assume a: "ui_shape w \<and> (\<forall>c flds. (c, flds) \<in> set FALLBACK_DEFAULTS \<longrightarrow> contains c (config_data w)) \<and>
    commit w = (None, w')" and s: "short_numbers w"
  show "well_typed (config_data w')"
    unfolding well_typed_iff
  proof (intro allI impI)
    fix c k d assume d: "default_of c k = Some d"
    then have "contains c (config_data w)" using a unfolding default_of_iff by blast
    from commit_field [OF _ _ d this] a s show "\<exists>v. field_of (config_data w') c k = Some v \<and> value_ok d v"
      by blast
  qed
qed

theorem value_types_witness:
  "well_typed (config_data (snd (reset_to_defaults Yes initial_window))) \<and>
   (\<exists>w'. load_config dk_example initial_window = Inr w' \<and> well_typed (config_data w')) \<and>
   (\<exists>w'. commit (filled_window ''42'' False) = (None, w') \<and> well_typed (config_data w'))"
proof (intro conjI)
  from value_types [of initial_window] 
  show "well_typed (config_data (snd (reset_to_defaults Yes initial_window)))" by blast
next
  have "content dk_example = Holds (JObj [(''money'', JObj [(''starting_money'', JInt 500)])])"
    by (simp add: dk_example_def)
  moreover have "refused (JObj [(''money'', JObj [(''starting_money'', JInt 500)])]) (load_depth dk_example) = None"
    by (simp add: dk_example_def refused.simps max_str_digits_def int_digits_def dec.simps)
  ultimately obtain w' where w': "load_config dk_example initial_window = Inr w'"
    using load_config_ok [OF ui_shape_initial, of dk_example] loadable_example by auto
  have "value_ok d x" if "default_of c k = Some d \<and> field_of (file_doc dk_example) c k = Some x" for c k d x
  proof -
    from that have "c = ''money'' \<and> k = ''starting_money'' \<and> x = JInt 500"
      by (auto simp: file_doc_def dk_example_def field_of_def split: if_splits)
    with that show ?thesis by (auto simp: default_of_eq FALLBACK_DEFAULTS_def value_ok_def)
  qed
  with value_types [of initial_window dk_example w'] w'
  show "\<exists>w'. load_config dk_example initial_window = Inr w' \<and> well_typed (config_data w')" by blast
next
  let ?w = "filled_window ''42'' False"
  from commit_filled [of "''42''" False] text_42 obtain w' where w': "commit ?w = (None, w')" by auto
  have c: "\<forall>c flds. (c, flds) \<in> set FALLBACK_DEFAULTS \<longrightarrow> contains c (config_data ?w)"
    by (auto simp: filled_window_facts contains_def map_of_copy_defaults defaults_map_of)
  have "short_number ''42''"
    by (simp add: short_number_def text_42 digit_chars_def digit_char_def)
      (auto intro: exI [of _ 4] exI [of _ 2])
  then have s: "short_numbers ?w" by (simp add: short_numbers_def list_all_iff filled_window_facts)
  from value_types [of ?w dk_example w'] filled_window_facts(1) [of "''42''" False] c w' s
  show "\<exists>w'. commit ?w = (None, w') \<and> well_typed (config_data w')" by blast
qed

text \<open>
  A file with a negative starting amount: the editor starts, and its document holds the
  negative amount.
\<close>

theorem value_types_counterexample:
  "\<not> isl (MainWindow dk_negative) \<and>
   field_of (config_data (projr (MainWindow dk_negative))) ''money'' ''starting_money''
     = Some (JInt (- 5)) \<and>
   \<not> well_typed (config_data (projr (MainWindow dk_negative)))"
proof -
  from dk_negative_loads obtain w' where w': "load_config dk_negative initial_window = Inr w'" by blast
  from load_config_field [OF w' starting_money_default]
  have f: "field_of (config_data w') ''money'' ''starting_money'' = Some (JInt (- 5))"
    by (simp add: file_doc_def dk_negative_def field_of_def)
  have "\<not> well_typed (config_data w')"
  proof
    assume "well_typed (config_data w')"
    with starting_money_default f have "value_ok (JInt 3333) (JInt (- 5))"
      unfolding well_typed_iff by fastforce
    then show False by (simp add: value_ok_def)
  qed
  with f w' show ?thesis by (simp add: MainWindow_eq)
qed

end
